theory Spec2Isabelle
  imports Complex_Main "HOL-Library.Word" "HOL-Library.Multiset"
begin

section \<open>The point container behind the adaptor\<close>

text \<open>
  The example includes \<^verbatim>\<open>utils.h\<close> for the container \<^verbatim>\<open>PointCloud<T>\<close> and its point
  type; that header is not among the sources. The adaptor only uses the member \<^verbatim>\<open>pts\<close>
  (a sequence with \<^verbatim>\<open>size()\<close> and unchecked \<^verbatim>\<open>operator[]\<close>) and three methods of the
  point type. The scalar type \<^verbatim>\<open>coord_t\<close> is a template parameter; it is a type variable
  here. The code compares coordinates with \<^verbatim>\<open><\<close> and \<^verbatim>\<open>>\<close> only, so the adaptor needs
  no more of the type than these two operators (the class \<open>ord\<close>, which states no law
  about them).
\<close>

text \<open>The program instantiates \<^verbatim>\<open>coord_t\<close> with \<^verbatim>\<open>float\<close> and with \<^verbatim>\<open>double\<close>. What the
  comparisons of a floating-point type add to a linear order is NaN: a value is a number
  (the infinities among them; the two zeros compare equal and are one number here) or
  NaN, and every comparison with a NaN operand is false, also \<open>NaN \<le> NaN\<close>.\<close>

datatype 'r ieee = Fin (number: 'r) | NaN

instantiation ieee :: (ord) ord
begin

definition less_eq_ieee :: "'a ieee \<Rightarrow> 'a ieee \<Rightarrow> bool" where
  "less_eq_ieee x y = (case x of NaN \<Rightarrow> False | Fin a \<Rightarrow> (case y of NaN \<Rightarrow> False | Fin b \<Rightarrow> a \<le> b))"

definition less_ieee :: "'a ieee \<Rightarrow> 'a ieee \<Rightarrow> bool" where
  "less_ieee x y = (case x of NaN \<Rightarrow> False | Fin a \<Rightarrow> (case y of NaN \<Rightarrow> False | Fin b \<Rightarrow> a < b))"

instance ..

end

text \<open>Modelled from the spec: the point type of \<^verbatim>\<open>utils.h\<close>; section 3 describes a point
  as a tuple of D scalar coordinates.\<close>

type_synonym 'c Point = "'c list"

text \<open>Modelled from the spec: \<^verbatim>\<open>Point::get_component\<close> of \<^verbatim>\<open>utils.h\<close>, the
  \<^verbatim>\<open>dim\<close>-th coordinate of the point (section 4.1, \<open>coordinate\<close>). A point has no
  coordinate at a dimension beyond its own: that read gives no value.\<close>

definition Point_get_component :: "'c Point \<Rightarrow> nat \<Rightarrow> 'c option" where
  "Point_get_component p dm = (if dm < length p then Some (p ! dm) else None)"

text \<open>Modelled from the spec: \<^verbatim>\<open>Point::get_signed_distance\<close> of \<^verbatim>\<open>utils.h\<close>; section 4.1
  gives the default (Euclidean) metric as \<open>coordinate - value\<close>.\<close>

definition Point_get_signed_distance :: "('c::minus) Point \<Rightarrow> nat \<Rightarrow> 'c \<Rightarrow> 'c option" where
  "Point_get_signed_distance p dm val =
     (case Point_get_component p dm of None \<Rightarrow> None | Some c \<Rightarrow> Some (c - val))"

text \<open>Modelled from the spec: \<^verbatim>\<open>Point::get_distance_to\<close> of \<^verbatim>\<open>utils.h\<close>; section 4.1
  gives the metric distance as the sum of the squared differences per dimension.\<close>

definition Point_get_distance_to :: "('c::{minus,times,comm_monoid_add}) Point \<Rightarrow> 'c Point \<Rightarrow> 'c" where
  "Point_get_distance_to p q = (\<Sum>(a, b) \<leftarrow> zip p q. (a - b) * (a - b))"

text \<open>Modelled from the spec: the container \<^verbatim>\<open>PointCloud<T>\<close> of \<^verbatim>\<open>utils.h\<close>, an ordered
  sequence of points (section 3); the adaptor reads its member \<^verbatim>\<open>pts\<close>.\<close>

record 'c PointCloud =
  pts :: "'c Point list"

section \<open>The adaptor: \<^verbatim>\<open>PointCloudAdaptor\<close>\<close>

text \<open>\<^verbatim>\<open>struct PointAdaptor { const Derived::PointType& point; ... }\<close>: the three methods
  forward to the point.\<close>

record 'c PointAdaptor =
  point :: "'c Point"

definition get_component :: "'c PointAdaptor \<Rightarrow> nat \<Rightarrow> 'c option" where
  "get_component pa dm = Point_get_component (point pa) dm"

definition get_signed_distance :: "('c::minus) PointAdaptor \<Rightarrow> nat \<Rightarrow> 'c \<Rightarrow> 'c option" where
  "get_signed_distance pa dm val = Point_get_signed_distance (point pa) dm val"

definition get_distance_to ::
  "('c::{minus,times,comm_monoid_add}) PointAdaptor \<Rightarrow> 'c PointAdaptor \<Rightarrow> 'c" where
  "get_distance_to pa pt = Point_get_distance_to (point pa) (point pt)"

text \<open>The parameters \<^verbatim>\<open>dim\<close> and \<^verbatim>\<open>count\<close> of the source are written \<open>dm\<close> and \<open>cnt\<close>
  throughout: both names are constants of the library.

  \<^verbatim>\<open>const Derived& obj\<close> is the only data member of the adaptor. The reference is
  modelled by the collection it refers to.\<close>

record 'c PointCloudAdaptor =
  obj :: "'c PointCloud"

definition derived :: "'c PointCloudAdaptor \<Rightarrow> 'c PointCloud" where
  "derived a = obj a"

definition kdtree_get_point_count :: "'c PointCloudAdaptor \<Rightarrow> nat" where
  "kdtree_get_point_count a = length (pts (derived a))"

text \<open>\<^verbatim>\<open>derived().pts[idx]\<close> is an unchecked read: the code has no branch for
  \<open>idx \<ge> size\<close>, where C++ gives the read no meaning. The model returns \<open>None\<close>
  there.\<close>

definition kdtree_get_pt :: "'c PointCloudAdaptor \<Rightarrow> nat \<Rightarrow> 'c PointAdaptor option" where
  "kdtree_get_pt a idx =
     (if idx < length (pts (derived a))
      then Some \<lparr>point = pts (derived a) ! idx\<rparr>
      else None)"

text \<open>\<^verbatim>\<open>ix[k]\<close> for the pointer argument \<^verbatim>\<open>const uint32_t* ix\<close>: the list is the array
  the pointer addresses; a read past its end gives no value.\<close>

definition ix_at :: "32 word list \<Rightarrow> nat \<Rightarrow> 32 word option" where
  "ix_at ix k = (if k < length ix then Some (ix ! k) else None)"

text \<open>The expression \<^verbatim>\<open>kdtree_get_pt(idx).get_component(dim)\<close>, the \<open>coordinate\<close>
  of section 4.1 of the spec.\<close>

definition coordinate :: "'c PointCloudAdaptor \<Rightarrow> nat \<Rightarrow> nat \<Rightarrow> 'c option" where
  "coordinate a idx dm =
     (case kdtree_get_pt a idx of
        None \<Rightarrow> None
      | Some pa \<Rightarrow> get_component pa dm)"

text \<open>The expression \<^verbatim>\<open>kdtree_get_pt(idx).get_signed_distance(dim, val)\<close>, the
  \<open>signedDistance\<close> of section 4.1 of the spec.\<close>

definition signedDistance :: "('c::minus) PointCloudAdaptor \<Rightarrow> nat \<Rightarrow> nat \<Rightarrow> 'c \<Rightarrow> 'c option" where
  "signedDistance a idx dm val =
     (case kdtree_get_pt a idx of
        None \<Rightarrow> None
      | Some pa \<Rightarrow> get_signed_distance pa dm val)"

text \<open>The expression \<^verbatim>\<open>kdtree_get_pt(ix[k]).get_component(dim)\<close>; the 32-bit index is
  widened to \<^verbatim>\<open>size_t\<close>.\<close>

definition pt_component :: "'c PointCloudAdaptor \<Rightarrow> 32 word list \<Rightarrow> nat \<Rightarrow> nat \<Rightarrow> 'c option" where
  "pt_component a ix k dm =
     (case ix_at ix k of
        None \<Rightarrow> None
      | Some i \<Rightarrow> coordinate a (unat i) dm)"

text \<open>The loop of \<^verbatim>\<open>kdtree_get_limits\<close>, from \<open>k\<close> on, on the current values of the two
  output references. \<^verbatim>\<open>count\<close> (here \<open>cnt\<close>) and \<^verbatim>\<open>k\<close> are \<^verbatim>\<open>size_t\<close>; \<open>k < cnt\<close> before each
  increment, so nothing wraps and they are natural numbers here.\<close>

function kdtree_get_limits_loop ::
  "('c::ord) PointCloudAdaptor \<Rightarrow> 32 word list \<Rightarrow> nat \<Rightarrow> nat \<Rightarrow> nat \<Rightarrow> 'c \<times> 'c
     \<Rightarrow> ('c \<times> 'c) option" where
  "kdtree_get_limits_loop a ix cnt dm k (limit_min, limit_max) =
     (if k < cnt then
        (case pt_component a ix k dm of
           None \<Rightarrow> None
         | Some v \<Rightarrow>
             kdtree_get_limits_loop a ix cnt dm (k + 1)
               (if v < limit_min then v else limit_min,
                if v > limit_max then v else limit_max))
      else Some (limit_min, limit_max))"
  by pat_completeness auto
termination
  by (relation "measure (\<lambda>(a, ix, cnt, dm, k, l). cnt - k)") auto

text \<open>The result is the pair left in \<^verbatim>\<open>limit_min\<close> and \<^verbatim>\<open>limit_max\<close>.\<close>

definition kdtree_get_limits ::
  "('c::ord) PointCloudAdaptor \<Rightarrow> 32 word list \<Rightarrow> nat \<Rightarrow> nat \<Rightarrow> ('c \<times> 'c) option" where
  "kdtree_get_limits a ix cnt dm =
     (case pt_component a ix 0 dm of
        None \<Rightarrow> None
      | Some first \<Rightarrow> kdtree_get_limits_loop a ix cnt dm 1 (first, first))"

section \<open>Calls of the adaptor's methods on an explicit state\<close>

text \<open>
  The state a method can reach: the adaptor object itself (\<^verbatim>\<open>this\<close>, whose only member
  is the reference to the collection, so the collection is part of it) and the two
  scalars that \<^verbatim>\<open>kdtree_get_limits\<close> receives by non-const reference. All methods are
  declared \<^verbatim>\<open>const\<close> and the collection is held by const reference; only
  \<^verbatim>\<open>kdtree_get_limits\<close> assigns, and only to its two output references, which are
  variables of the caller.
\<close>

record 'c adaptor_state =
  this :: "'c PointCloudAdaptor"
  limit_min :: 'c
  limit_max :: 'c

datatype 'c adaptor_call =
    Call_kdtree_get_point_count
  | Call_kdtree_get_pt nat
  | Call_get_component nat nat
  | Call_get_signed_distance nat nat 'c
  | Call_get_distance_to nat nat
  | Call_kdtree_get_limits "32 word list" nat nat

datatype 'c adaptor_return =
    Ret_size nat
  | Ret_point "'c PointAdaptor"
  | Ret_coord 'c
  | Ret_void

text \<open>One call: the value returned and the state after it; \<open>None\<close> where a read has no
  value. \<^verbatim>\<open>Call_get_component idx dim\<close> is \<^verbatim>\<open>kdtree_get_pt(idx).get_component(dim)\<close>,
  and likewise for the other two component accessors.\<close>

fun call_adaptor ::
  "('c::{ord,minus,times,comm_monoid_add}) adaptor_call \<Rightarrow> 'c adaptor_state
     \<Rightarrow> ('c adaptor_return \<times> 'c adaptor_state) option" where
  "call_adaptor Call_kdtree_get_point_count s =
     Some (Ret_size (kdtree_get_point_count (this s)), s)"
| "call_adaptor (Call_kdtree_get_pt idx) s =
     (case kdtree_get_pt (this s) idx of
        None \<Rightarrow> None
      | Some pa \<Rightarrow> Some (Ret_point pa, s))"
| "call_adaptor (Call_get_component idx dm) s =
     (case coordinate (this s) idx dm of
        None \<Rightarrow> None
      | Some c \<Rightarrow> Some (Ret_coord c, s))"
| "call_adaptor (Call_get_signed_distance idx dm val) s =
     (case signedDistance (this s) idx dm val of
        None \<Rightarrow> None
      | Some c \<Rightarrow> Some (Ret_coord c, s))"
| "call_adaptor (Call_get_distance_to idx idx2) s =
     (case kdtree_get_pt (this s) idx of
        None \<Rightarrow> None
      | Some pa \<Rightarrow>
          (case kdtree_get_pt (this s) idx2 of
             None \<Rightarrow> None
           | Some pt \<Rightarrow> Some (Ret_coord (get_distance_to pa pt), s)))"
| "call_adaptor (Call_kdtree_get_limits ix cnt dm) s =
     (case kdtree_get_limits (this s) ix cnt dm of
        None \<Rightarrow> None
      | Some (mn, mx) \<Rightarrow> Some (Ret_void, s\<lparr>limit_min := mn, limit_max := mx\<rparr>))"

section \<open>The index and the search engine\<close>

text \<open>
  The example includes \<^verbatim>\<open>nanoflann.hpp\<close>, which holds the index
  (\<^verbatim>\<open>KDTreeSingleIndexAdaptor\<close>), the search and the result sets; that header is not
  among the sources, and the example only calls it. What follows is written from
  sections 3, 4.2, 4.3, 4.4 and 6 of the spec. Scalars are taken from a linearly ordered
  field (the midpoint of two coordinates is needed).
\<close>

subsection \<open>Result collector (section 4.4)\<close>

text \<open>Modelled from the spec: the \<open>ResultSet\<close> of \<^verbatim>\<open>nanoflann.hpp\<close>, a collection of
  (point index, distance) pairs, ascending by distance, with a capacity fixed at
  construction.\<close>

record 'c ResultSet =
  capacity :: nat
  items :: "(nat \<times> 'c) list"

text \<open>Modelled from the spec: \<open>isFull\<close> of \<^verbatim>\<open>nanoflann.hpp\<close>; section 3: full when
  the size equals the capacity.\<close>

definition isFull :: "'c ResultSet \<Rightarrow> bool" where
  "isFull rs = (length (items rs) = capacity rs)"

text \<open>Modelled from the spec: \<open>worstDistance\<close> of \<^verbatim>\<open>nanoflann.hpp\<close>, the current maximum
  held distance of a full set. \<open>None\<close> stands for "no held maximum": the set is not yet
  full (the spec's +infinity), or it is full with capacity 0 and holds nothing.\<close>

definition worstDistance :: "'c ResultSet \<Rightarrow> 'c option" where
  "worstDistance rs =
     (if isFull rs \<and> items rs \<noteq> [] then Some (snd (last (items rs))) else None)"

text \<open>Modelled from the spec: \<open>insert\<close> of \<^verbatim>\<open>nanoflann.hpp\<close>. Below capacity the pair is
  inserted at a position that keeps the order ascending. At capacity it is inserted
  only if its distance is strictly less than the maximum held, which is evicted; a set
  of capacity 0 holds no maximum and admits nothing. The spec leaves the position among
  equal distances open: the pair goes before them.\<close>

definition insert_result :: "('c::linorder) ResultSet \<Rightarrow> nat \<times> 'c \<Rightarrow> 'c ResultSet" where
  "insert_result rs cand =
     (if \<not> isFull rs then rs\<lparr>items := insort_key snd cand (items rs)\<rparr>
      else (case worstDistance rs of
              None \<Rightarrow> rs
            | Some w \<Rightarrow>
                if snd cand < w
                then rs\<lparr>items := insort_key snd cand (butlast (items rs))\<rparr>
                else rs))"

subsection \<open>Tree nodes and bounding boxes (section 3)\<close>

text \<open>Modelled from the spec: the \<open>BoundingBox\<close> of \<^verbatim>\<open>nanoflann.hpp\<close>, one [min, max]
  pair per dimension.\<close>

type_synonym 'c BoundingBox = "('c \<times> 'c) list"

text \<open>Modelled from the spec: the \<open>TreeNode\<close> of \<^verbatim>\<open>nanoflann.hpp\<close>. A leaf holds a range
  \<open>[lo, hi)\<close> of the permutation array; an internal node holds the split dimension, the
  split value and its two children. Every node carries the bounding box of its
  subtree.\<close>

datatype 'c TreeNode =
    Leaf "'c BoundingBox" nat nat
  | Internal "'c BoundingBox" nat 'c "'c TreeNode" "'c TreeNode"

fun bbox :: "'c TreeNode \<Rightarrow> 'c BoundingBox" where
  "bbox (Leaf box lo hi) = box"
| "bbox (Internal box dm split left right) = box"

text \<open>Modelled from the spec: the \<open>Index\<close> of \<^verbatim>\<open>nanoflann.hpp\<close>: the adaptor it refers
  to, the configuration, the cached point count, the permutation array and the root.\<close>

record 'c Index =
  adaptor :: "'c PointCloudAdaptor"
  dimensionality :: nat
  leafSize :: nat
  m_size :: nat
  vind :: "32 word list"
  root :: "'c TreeNode"

subsection \<open>Build (section 4.2)\<close>

text \<open>Modelled from the spec: the bounding box of an index range, computed by the build
  of \<^verbatim>\<open>nanoflann.hpp\<close> with \<open>boundsOver\<close> (\<^verbatim>\<open>kdtree_get_limits\<close>) for each dimension.\<close>

definition computeBoundingBox ::
  "('c::linorder) PointCloudAdaptor \<Rightarrow> nat \<Rightarrow> 32 word list \<Rightarrow> 'c BoundingBox option" where
  "computeBoundingBox a D seg =
     those (map (\<lambda>d. kdtree_get_limits a seg (length seg) d) [0..<D])"

text \<open>Modelled from the spec: the choice of the split dimension in \<^verbatim>\<open>nanoflann.hpp\<close>, the
  dimension with the greatest coordinate spread, counted from \<open>d\<close> on; the lowest such
  dimension where several have that spread (the spec leaves the tie open). The result
  carries the bounds of the chosen dimension; there is none for no dimensions.\<close>

fun widestDim :: "nat \<Rightarrow> ('c::linordered_field) BoundingBox \<Rightarrow> (nat \<times> 'c \<times> 'c) option" where
  "widestDim d [] = None"
| "widestDim d ((mn, mx) # box) =
     (case widestDim (d + 1) box of
        None \<Rightarrow> Some (d, mn, mx)
      | Some (d', mn', mx') \<Rightarrow>
          if mx - mn < mx' - mn' then Some (d', mn', mx') else Some (d, mn, mx))"

text \<open>Modelled from the spec: the partition step of the build in \<^verbatim>\<open>nanoflann.hpp\<close>: one
  pass over the range, the indices with coordinate \<open>\<le> split\<close> before those with
  coordinate \<open>> split\<close>. The two parts are returned separately.\<close>

fun planeSplit ::
  "('c::linorder) PointCloudAdaptor \<Rightarrow> 32 word list \<Rightarrow> nat \<Rightarrow> 'c
     \<Rightarrow> (32 word list \<times> 32 word list) option" where
  "planeSplit a [] dm split = Some ([], [])"
| "planeSplit a (i # seg) dm split =
     (case coordinate a (unat i) dm of
        None \<Rightarrow> None
      | Some c \<Rightarrow>
          (case planeSplit a seg dm split of
             None \<Rightarrow> None
           | Some (left, right) \<Rightarrow>
               if c \<le> split then Some (i # left, right) else Some (left, i # right)))"

text \<open>Modelled from the spec: the recursive partition of the build in \<^verbatim>\<open>nanoflann.hpp\<close>
  (section 4.2, steps 2 and 3), on the part \<open>seg\<close> of the permutation array that starts
  at offset \<open>lo\<close>. It returns the node and the reordered part. The empty range (an empty
  collection) is an empty leaf. A range of at most \<open>leafSize\<close> indices is a leaf.
  Otherwise the split dimension is the widest one and the split value the midpoint of
  its extrema; when even the widest dimension has no spread, all points of the range
  coincide and the range is a leaf.\<close>

function build_tree ::
  "('c::linordered_field) PointCloudAdaptor \<Rightarrow> nat \<Rightarrow> nat \<Rightarrow> nat \<Rightarrow> 32 word list
     \<Rightarrow> ('c TreeNode \<times> 32 word list) option" where
  "build_tree a lfsz D lo seg =
     (if seg = [] then Some (Leaf [] lo lo, [])
      else
        (case computeBoundingBox a D seg of
           None \<Rightarrow> None
         | Some box \<Rightarrow>
             if length seg \<le> lfsz then Some (Leaf box lo (lo + length seg), seg)
             else
               (case widestDim 0 box of
                  None \<Rightarrow> Some (Leaf box lo (lo + length seg), seg)
                | Some (dm, mn, mx) \<Rightarrow>
                    if \<not> mn < mx then Some (Leaf box lo (lo + length seg), seg)
                    else
                      (case planeSplit a seg dm ((mn + mx) / 2) of
                         None \<Rightarrow> None
                       | Some (left, right) \<Rightarrow>
                           (case build_tree a lfsz D lo left of
                              None \<Rightarrow> None
                            | Some (lnode, left') \<Rightarrow>
                                (case build_tree a lfsz D (lo + length left) right of
                                   None \<Rightarrow> None
                                 | Some (rnode, right') \<Rightarrow>
                                     Some (Internal box dm ((mn + mx) / 2) lnode rnode,
                                           left' @ right')))))))"
  by pat_completeness auto

text \<open>Modelled from the spec: the construction \<open>Index(dimensionality, adaptor,
  buildConfig)\<close> of \<^verbatim>\<open>nanoflann.hpp\<close> (sections 4.2 and 6): the permutation array starts as
  the identity on \<open>[0, N)\<close>, in 32-bit indices, and the whole range is built.\<close>

definition buildIndex ::
  "nat \<Rightarrow> ('c::linordered_field) PointCloudAdaptor \<Rightarrow> nat \<Rightarrow> 'c Index option" where
  "buildIndex D a lfsz =
     (case build_tree a lfsz D 0 (map of_nat [0..<kdtree_get_point_count a]) of
        None \<Rightarrow> None
      | Some (node, perm) \<Rightarrow>
          Some \<lparr>adaptor = a, dimensionality = D, leafSize = lfsz,
                m_size = kdtree_get_point_count a, vind = perm, root = node\<rparr>)"

subsection \<open>Search (section 4.3)\<close>

text \<open>Modelled from the spec: the lower bound of the search in \<^verbatim>\<open>nanoflann.hpp\<close> on the
  distance from the query to a bounding box: per dimension the squared distance to the
  interval, summed (distances are squared throughout).\<close>

definition boxDistance :: "('c::linordered_field) Point \<Rightarrow> 'c BoundingBox \<Rightarrow> 'c" where
  "boxDistance q box =
     (\<Sum>(c, (mn, mx)) \<leftarrow> zip q box.
        if c < mn then (mn - c) * (mn - c)
        else if mx < c then (c - mx) * (c - mx)
        else 0)"

text \<open>Modelled from the spec: what the search of \<^verbatim>\<open>nanoflann.hpp\<close> does at a leaf: the
  exact distance to every point of the range, each offered to the result set.\<close>

fun searchLeaf ::
  "('c::linordered_field) PointCloudAdaptor \<Rightarrow> 'c Point \<Rightarrow> 32 word list \<Rightarrow> 'c ResultSet
     \<Rightarrow> 'c ResultSet option" where
  "searchLeaf a q [] rs = Some rs"
| "searchLeaf a q (i # ixs) rs =
     (case kdtree_get_pt a (unat i) of
        None \<Rightarrow> None
      | Some pa \<Rightarrow>
          searchLeaf a q ixs
            (insert_result rs (unat i, get_distance_to pa \<lparr>point = q\<rparr>)))"

text \<open>Modelled from the spec: the test of the k-nearest search of \<^verbatim>\<open>nanoflann.hpp\<close> for
  descending into the far child: its lower bound is less than the current k-th best
  distance, or the result set is not yet full.\<close>

definition descendFar :: "('c::linorder) ResultSet \<Rightarrow> 'c \<Rightarrow> bool" where
  "descendFar rs lb =
     (\<not> isFull rs \<or> (case worstDistance rs of None \<Rightarrow> False | Some w \<Rightarrow> lb < w))"

text \<open>Modelled from the spec: the k-nearest traversal of \<^verbatim>\<open>nanoflann.hpp\<close>. At an
  internal node the sign of the signed distance from the query to the split plane
  tells the near child (the left one holds the coordinates \<open>\<le> split\<close>); the near child
  is searched first, the far child only if \<open>descendFar\<close> admits the lower bound of its
  box.\<close>

fun searchLevel ::
  "('c::linordered_field) Index \<Rightarrow> 'c Point \<Rightarrow> 'c TreeNode \<Rightarrow> 'c ResultSet
     \<Rightarrow> 'c ResultSet option" where
  "searchLevel idx q (Leaf box lo hi) rs =
     searchLeaf (adaptor idx) q (take (hi - lo) (drop lo (vind idx))) rs"
| "searchLevel idx q (Internal box dm split left right) rs =
     (case get_signed_distance \<lparr>point = q\<rparr> dm split of
        None \<Rightarrow> None
      | Some sd \<Rightarrow>
          if sd \<le> 0 then
            (case searchLevel idx q left rs of
               None \<Rightarrow> None
             | Some rs1 \<Rightarrow>
                 if descendFar rs1 (boxDistance q (bbox right))
                 then searchLevel idx q right rs1
                 else Some rs1)
          else
            (case searchLevel idx q right rs of
               None \<Rightarrow> None
             | Some rs1 \<Rightarrow>
                 if descendFar rs1 (boxDistance q (bbox left))
                 then searchLevel idx q left rs1
                 else Some rs1))"

text \<open>Modelled from the spec: \<open>findKNearest(queryPoint, k)\<close> of \<^verbatim>\<open>nanoflann.hpp\<close>
  (section 6): the traversal from the root with an empty result set of capacity \<open>k\<close>.\<close>

definition findKNearest ::
  "('c::linordered_field) Index \<Rightarrow> 'c Point \<Rightarrow> nat \<Rightarrow> 'c ResultSet option" where
  "findKNearest idx q k = searchLevel idx q (root idx) \<lparr>capacity = k, items = []\<rparr>"

text \<open>Modelled from the spec: what the radius query of \<^verbatim>\<open>nanoflann.hpp\<close> does at a
  leaf: every point of the range within the radius is added to the matches.\<close>

fun radiusLeaf ::
  "('c::linordered_field) PointCloudAdaptor \<Rightarrow> 'c Point \<Rightarrow> 'c \<Rightarrow> 32 word list
     \<Rightarrow> (nat \<times> 'c) list \<Rightarrow> (nat \<times> 'c) list option" where
  "radiusLeaf a q radius [] found = Some found"
| "radiusLeaf a q radius (i # ixs) found =
     (case kdtree_get_pt a (unat i) of
        None \<Rightarrow> None
      | Some pa \<Rightarrow>
          radiusLeaf a q radius ixs
            (if get_distance_to pa \<lparr>point = q\<rparr> \<le> radius
             then found @ [(unat i, get_distance_to pa \<lparr>point = q\<rparr>)]
             else found))"

text \<open>Modelled from the spec: the radius traversal of \<^verbatim>\<open>nanoflann.hpp\<close>: the same
  traversal, with the lower bound of the far child compared against the fixed
  radius.\<close>

fun radiusLevel ::
  "('c::linordered_field) Index \<Rightarrow> 'c Point \<Rightarrow> 'c \<Rightarrow> 'c TreeNode \<Rightarrow> (nat \<times> 'c) list
     \<Rightarrow> (nat \<times> 'c) list option" where
  "radiusLevel idx q radius (Leaf box lo hi) found =
     radiusLeaf (adaptor idx) q radius (take (hi - lo) (drop lo (vind idx))) found"
| "radiusLevel idx q radius (Internal box dm split left right) found =
     (case get_signed_distance \<lparr>point = q\<rparr> dm split of
        None \<Rightarrow> None
      | Some sd \<Rightarrow>
          if sd \<le> 0 then
            (case radiusLevel idx q radius left found of
               None \<Rightarrow> None
             | Some found1 \<Rightarrow>
                 if boxDistance q (bbox right) \<le> radius
                 then radiusLevel idx q radius right found1
                 else Some found1)
          else
            (case radiusLevel idx q radius right found of
               None \<Rightarrow> None
             | Some found1 \<Rightarrow>
                 if boxDistance q (bbox left) \<le> radius
                 then radiusLevel idx q radius left found1
                 else Some found1))"

text \<open>Modelled from the spec: \<open>findInRadius(queryPoint, radiusSquared)\<close> of
  \<^verbatim>\<open>nanoflann.hpp\<close> (section 6).\<close>

definition findInRadius ::
  "('c::linordered_field) Index \<Rightarrow> 'c Point \<Rightarrow> 'c \<Rightarrow> (nat \<times> 'c) list option" where
  "findInRadius idx q radius = radiusLevel idx q radius (root idx) []"

subsection \<open>The linear scan of section 8\<close>



subsection \<open>Invariants of the collector, the tree and the build\<close>

text \<open>The pair the search offers to the result set for the entry \<open>i\<close> of the permutation
  array: the point index and its distance to the query.\<close>

definition candidate :: "('c::linordered_field) PointCloudAdaptor \<Rightarrow> 'c Point \<Rightarrow> 32 word \<Rightarrow> nat \<times> 'c" where
  "candidate a q i = (unat i, Point_get_distance_to (pts (obj a) ! unat i) q)"

text \<open>The result set \<open>rs\<close> of capacity \<open>k\<close> holds the \<open>k\<close> best of the candidates \<open>C\<close> considered so
  far: its pairs are among them, and its distances are the first \<open>k\<close> of their distances in
  ascending order (section 3, the invariant of the result set).\<close>

definition collects :: "nat \<Rightarrow> (nat \<times> 'c) multiset \<Rightarrow> ('c::linorder) ResultSet \<Rightarrow> bool" where
  "collects k C rs \<longleftrightarrow>
     capacity rs = k \<and> mset (items rs) \<subseteq># C \<and>
     map snd (items rs) = take k (sorted_list_of_multiset (image_mset snd C))"

text \<open>The entry \<open>i\<close> addresses a point of the collection, and that point has \<open>D\<close>
  coordinates.\<close>

definition valid_ix :: "'c PointCloudAdaptor \<Rightarrow> nat \<Rightarrow> 32 word \<Rightarrow> bool" where
  "valid_ix a D i \<longleftrightarrow>
     unat i < length (pts (obj a)) \<and> length (pts (obj a) ! unat i) = D"

text \<open>Every index of \<open>ixs\<close> is valid and its point lies within the box.\<close>

definition box_ok ::
  "('c::linorder) PointCloudAdaptor \<Rightarrow> nat \<Rightarrow> 32 word list \<Rightarrow> 'c BoundingBox \<Rightarrow> bool" where
  "box_ok a D ixs box \<longleftrightarrow>
     (\<forall>i\<in>set ixs. valid_ix a D i \<and>
        (\<forall>d<length box. d < D \<and> fst (box ! d) \<le> pts (obj a) ! unat i ! d \<and>
                         pts (obj a) ! unat i ! d \<le> snd (box ! d)))"

text \<open>The indices of the subtree of a node, read off the permutation array.\<close>

fun node_indices :: "32 word list \<Rightarrow> 'c TreeNode \<Rightarrow> 32 word list" where
  "node_indices perm (Leaf box lo hi) = take (hi - lo) (drop lo perm)"
| "node_indices perm (Internal box dm split left right) =
     node_indices perm left @ node_indices perm right"

text \<open>The invariant of a tree: split dimensions exist, and the box of every node contains
  the points of its subtree (section 3).\<close>

fun tree_inv ::
  "('c::linorder) PointCloudAdaptor \<Rightarrow> nat \<Rightarrow> 32 word list \<Rightarrow> 'c TreeNode \<Rightarrow> bool" where
  "tree_inv a D perm (Leaf box lo hi) = box_ok a D (take (hi - lo) (drop lo perm)) box"
| "tree_inv a D perm (Internal box dm split left right) =
     (dm < D \<and> box_ok a D (node_indices perm left @ node_indices perm right) box \<and>
      tree_inv a D perm left \<and> tree_inv a D perm right)"

text \<open>What a call of \<open>build_tree\<close> on the part \<open>seg\<close> at offset \<open>lo\<close> establishes: the part is
  reordered, not changed, and wherever it is placed at that offset the node describes
  exactly that part and satisfies the invariant.\<close>

definition built ::
  "('c::linorder) PointCloudAdaptor \<Rightarrow> nat \<Rightarrow> nat \<Rightarrow> 32 word list \<Rightarrow> 'c TreeNode \<Rightarrow> 32 word list
     \<Rightarrow> bool" where
  "built a D lo seg node seg' \<longleftrightarrow>
     mset seg' = mset seg \<and>
     (\<forall>pre post. length pre = lo \<longrightarrow>
        node_indices (pre @ seg' @ post) node = seg' \<and>
        tree_inv a D (pre @ seg' @ post) node)"

section \<open>A concrete collection\<close>

text \<open>The five points of the scenario of section 8 of the spec, with rational coordinates.\<close>

definition scenario_cloud :: "rat PointCloud" where
  "scenario_cloud = \<lparr>pts = [[0, 0, 0], [1, 0, 0], [0, 1, 0], [0, 0, 1], [5, 5, 5]]\<rparr>"

definition scenario_adaptor :: "rat PointCloudAdaptor" where
  "scenario_adaptor = \<lparr>obj = scenario_cloud\<rparr>"

text \<open>Three points with floating-point coordinates, the first coordinate of the first
  point a NaN.\<close>

definition nan_cloud :: "rat ieee PointCloud" where
  "nan_cloud = \<lparr>pts = [[NaN, Fin 0, Fin 0], [Fin 1, Fin 0, Fin 0], [Fin 2, Fin 0, Fin 0]]\<rparr>"

definition nan_adaptor :: "rat ieee PointCloudAdaptor" where
  "nan_adaptor = \<lparr>obj = nan_cloud\<rparr>"

section \<open>Properties of the adaptor\<close>

text \<open>The loop of \<^verbatim>\<open>kdtree_get_limits\<close> is characterised first: it has a result exactly when
  every read from \<open>k\<close> on has a value, and the result is then the minimum and the maximum
  of the values read, together with the values it started from.\<close>

declare kdtree_get_limits_loop.simps [simp del]

lemma atLeastLessThan_split_first: "k < cnt \<Longrightarrow> {k..<cnt} = insert k {Suc k..<cnt}"
  by auto

lemma Min_insert_min: "finite S \<Longrightarrow> Min (insert (min v m) S) = Min (insert m (insert v S))"
  by (cases "S = {}") (auto simp: min.commute min.left_commute min.assoc)

lemma Max_insert_max: "finite S \<Longrightarrow> Max (insert (max v m) S) = Max (insert m (insert v S))"
  by (cases "S = {}") (auto simp: max.commute max.left_commute max.assoc)

lemma loop_char:
  "kdtree_get_limits_loop a ix cnt dm k (mn, mx) =
     (if \<forall>j\<in>{k..<cnt}. pt_component a ix j dm \<noteq> None
      then Some (Min (insert mn ((\<lambda>j. the (pt_component a ix j dm)) ` {k..<cnt})),
                 Max (insert mx ((\<lambda>j. the (pt_component a ix j dm)) ` {k..<cnt})))
      else None)"
proof (induction a ix cnt dm k "(mn, mx)" arbitrary: mn mx rule: kdtree_get_limits_loop.induct)
  case (1 a ix cnt dm k limit_min limit_max)
  show ?case
  proof (cases "k < cnt")
    case False
    then show ?thesis by (subst kdtree_get_limits_loop.simps) simp
  next
    case True
    note split = atLeastLessThan_split_first [OF True]
    show ?thesis
    proof (cases "pt_component a ix k dm")
      case None
      with True show ?thesis by (subst kdtree_get_limits_loop.simps) (auto simp: split)
    next
      case (Some v)
      have mn: "(if v < limit_min then v else limit_min) = min v limit_min"
        and mx: "(if v > limit_max then v else limit_max) = max v limit_max"
        by (auto simp: min_def max_def)
      have "kdtree_get_limits_loop a ix cnt dm k (limit_min, limit_max) =
            kdtree_get_limits_loop a ix cnt dm (k + 1) (min v limit_min, max v limit_max)"
        using True Some by (subst kdtree_get_limits_loop.simps) (simp add: mn mx)
      also have "\<dots> = (if \<forall>j\<in>{Suc k..<cnt}. pt_component a ix j dm \<noteq> None
          then Some (Min (insert (min v limit_min) ((\<lambda>j. the (pt_component a ix j dm)) ` {Suc k..<cnt})),
                 Max (insert (max v limit_max) ((\<lambda>j. the (pt_component a ix j dm)) ` {Suc k..<cnt})))
          else None)"
        using "1.hyps" [OF True Some] by (simp add: mn mx)
      finally show ?thesis
        using Some by (simp add: split Min_insert_min Max_insert_max)
    qed
  qed
qed

lemma limits_char:
  "kdtree_get_limits a ix cnt dm =
     (if \<forall>j\<in>insert 0 {1..<cnt}. pt_component a ix j dm \<noteq> None
      then Some (Min ((\<lambda>j. the (pt_component a ix j dm)) ` insert 0 {1..<cnt}),
                 Max ((\<lambda>j. the (pt_component a ix j dm)) ` insert 0 {1..<cnt}))
      else None)"
  by (cases "pt_component a ix 0 dm") (auto simp: kdtree_get_limits_def loop_char)

lemma insert_0_upt: "0 < (cnt::nat) \<Longrightarrow> insert 0 {1..<cnt} = {..<cnt}"
  by auto

lemma pt_component_in_range:
  "k < length ix \<Longrightarrow> pt_component a ix k dm = coordinate a (unat (ix ! k)) dm"
  by (simp add: pt_component_def ix_at_def)

lemma coordinate_Some:
  "idx < length (pts (obj a)) \<Longrightarrow> dm < length (pts (obj a) ! idx) \<Longrightarrow>
   coordinate a idx dm = Some (pts (obj a) ! idx ! dm)"
  by (simp add: coordinate_def kdtree_get_pt_def derived_def get_component_def
      Point_get_component_def)

lemma limits_set_char:
  assumes "0 < cnt" "cnt \<le> length ix"
  shows "kdtree_get_limits a ix cnt dm =
     (if \<forall>i\<in>set (take cnt ix). coordinate a (unat i) dm \<noteq> None
      then Some (Min ((\<lambda>i. the (coordinate a (unat i) dm)) ` set (take cnt ix)),
                 Max ((\<lambda>i. the (coordinate a (unat i) dm)) ` set (take cnt ix)))
      else None)"
proof -
  have s: "set (take cnt ix) = (!) ix ` {..<cnt}"
    using nth_image [OF assms(2)] by (simp add: lessThan_atLeast0)
  have c: "\<And>j. j \<in> {..<cnt} \<Longrightarrow> pt_component a ix j dm = coordinate a (unat (ix ! j)) dm"
    using assms(2) by (simp add: pt_component_in_range)
  have i: "(\<lambda>j. the (pt_component a ix j dm)) ` {..<cnt} =
           (\<lambda>i. the (coordinate a (unat i) dm)) ` set (take cnt ix)"
    unfolding s image_image by (rule image_cong) (simp_all add: c)
  have q: "(\<forall>j\<in>{..<cnt}. pt_component a ix j dm \<noteq> None) \<longleftrightarrow>
           (\<forall>i\<in>set (take cnt ix). coordinate a (unat i) dm \<noteq> None)"
    unfolding s using c by simp
  show ?thesis
    unfolding limits_char insert_0_upt [OF assms(1)] i q ..
qed

text \<open>What holds of the loop for every coordinate type: an unreadable entry leaves the call
  without result, and with \<open>count = 0\<close> the loop is not entered.\<close>

lemma loop_undefined:
  "k \<le> j \<Longrightarrow> j < cnt \<Longrightarrow> pt_component a ix j dm = None \<Longrightarrow>
   kdtree_get_limits_loop a ix cnt dm k l = None"
proof (induction "j - k" arbitrary: k l)
  case 0
  then have "k = j" by simp
  with 0 show ?case by (cases l) (simp add: kdtree_get_limits_loop.simps)
next
  case (Suc n)
  then have kj: "k < j" "k < cnt" "n = j - (k + 1)" "k + 1 \<le> j" by simp_all
  obtain mn mx where l: "l = (mn, mx)" by (cases l)
  show ?case
  proof (cases "pt_component a ix k dm")
    case None
    with kj l show ?thesis by (simp add: kdtree_get_limits_loop.simps)
  next
    case (Some v)
    from Suc.hyps(1) [OF kj(3,4) Suc.prems(2,3)] Some kj(2) show ?thesis
      unfolding l by (subst kdtree_get_limits_loop.simps) simp
  qed
qed

lemma limits_undefined:
  assumes "k < cnt \<or> k = 0" and "pt_component a ix k dm = None"
  shows "kdtree_get_limits a ix cnt dm = None"
proof (cases "pt_component a ix 0 dm")
  case None
  then show ?thesis by (simp add: kdtree_get_limits_def)
next
  case (Some first)
  with assms(2) have "k \<noteq> 0" by (cases k) auto
  with assms(1) have "1 \<le> k" "k < cnt" by simp_all
  from loop_undefined [OF this assms(2)] Some show ?thesis by (simp add: kdtree_get_limits_def)
qed

lemma limits_count0:
  "kdtree_get_limits a ix 0 dm =
     (case pt_component a ix 0 dm of None \<Rightarrow> None | Some first \<Rightarrow> Some (first, first))"
  by (simp add: kdtree_get_limits_def kdtree_get_limits_loop.simps split: option.splits)

text \<open>Claim C6. Neither \<^verbatim>\<open>kdtree_get_pt\<close> nor \<^verbatim>\<open>kdtree_get_limits\<close> recovers from a point index
  greater than \<open>count() - 1\<close>: the read of the collection has no value, and so has the
  whole call of \<^verbatim>\<open>kdtree_get_limits\<close> when one of the entries it reads is such an index.\<close>

theorem unchecked_index_undefined:
  "(int idx > int (kdtree_get_point_count a) - 1 \<longrightarrow> kdtree_get_pt a idx = None) \<and>
   (k < cnt \<and> k < length ix \<and> int (unat (ix ! k)) > int (kdtree_get_point_count a) - 1
      \<longrightarrow> kdtree_get_limits a ix cnt dm = None)"
proof (intro conjI impI)
  assume "int idx > int (kdtree_get_point_count a) - 1"
  then show "kdtree_get_pt a idx = None"
    by (simp add: kdtree_get_pt_def kdtree_get_point_count_def)
next
  assume h: "k < cnt \<and> k < length ix \<and> int (unat (ix ! k)) > int (kdtree_get_point_count a) - 1"
  then have "\<not> unat (ix ! k) < kdtree_get_point_count a" by linarith
  with h have "pt_component a ix k dm = None"
    by (simp add: pt_component_in_range coordinate_def kdtree_get_pt_def kdtree_get_point_count_def)
  with h show "kdtree_get_limits a ix cnt dm = None"
    by (intro limits_undefined [of k]) simp_all
qed

text \<open>Claim C8, as the code has it. \<^verbatim>\<open>kdtree_get_limits\<close> reads \<^verbatim>\<open>ix[0]\<close> before any length
  check, so with \<open>count = 0\<close> it does what it does with \<open>count = 1\<close>: where the read of
  \<^verbatim>\<open>ix[0]\<close> and of the point it addresses has a value, the call returns that coordinate as
  both limits; it has no result exactly where that read has none, as on an index sequence
  with no entry.\<close>

theorem kdtree_get_limits_count0:
  "kdtree_get_limits a ix 0 dm =
     (case pt_component a ix 0 dm of None \<Rightarrow> None | Some first \<Rightarrow> Some (first, first)) \<and>
   kdtree_get_limits a ix 0 dm = kdtree_get_limits a ix 1 dm \<and>
   kdtree_get_limits a [] 0 dm = None"
  by (simp add: kdtree_get_limits_def kdtree_get_limits_loop.simps pt_component_def ix_at_def
      split: option.splits)

text \<open>Claim C3. \<^verbatim>\<open>kdtree_get_point_count\<close> returns the size of the point sequence of the
  collection the adaptor refers to, as it is when the call is made.\<close>

theorem kdtree_get_point_count_size: "kdtree_get_point_count a = length (pts (obj a))"
  by (simp add: kdtree_get_point_count_def derived_def)

text \<open>Claim C4. For every point index, dimension and scalar, the signed distance equals the
  coordinate minus the scalar (and has no value exactly where the coordinate has none).\<close>

theorem signedDistance_l2:
  "signedDistance a idx dm val = map_option (\<lambda>c. c - val) (coordinate a idx dm)"
  by (simp add: signedDistance_def coordinate_def get_signed_distance_def get_component_def
      Point_get_signed_distance_def split: option.splits)

text \<open>Claim C5. Every call of an adaptor method leaves the adaptor, and with it the collection
  it refers to, as it was; the only thing a call writes is the pair of output references of
  \<^verbatim>\<open>kdtree_get_limits\<close>. The adaptor has no state besides the reference: two adaptors on
  the same collection are equal.\<close>

theorem adaptor_calls_frame:
  "(call_adaptor c s = Some (r, s') \<longrightarrow> this s' = this s \<and> obj (this s') = obj (this s)) \<and>
   (\<forall>a b :: 'c PointCloudAdaptor. obj a = obj b \<longrightarrow> a = b)"
  by (cases c) (auto split: option.splits)

section \<open>The limits of floating-point coordinates\<close>

text \<open>At \<^verbatim>\<open>float\<close> and \<^verbatim>\<open>double\<close> both comparisons of the loop are false for a NaN. A NaN
  read first stays in both limits to the end; a NaN read later is skipped. Where no
  coordinate read is a NaN the loop computes the minimum and the maximum of the numbers.\<close>

lemma ieee_less [simp]:
  "Fin a < Fin b \<longleftrightarrow> a < b" "\<not> NaN < y" "\<not> x < NaN"
  by (simp_all add: less_ieee_def split: ieee.splits)

lemma ieee_less_eq [simp]:
  "Fin a \<le> Fin b \<longleftrightarrow> a \<le> b" "\<not> NaN \<le> y" "\<not> x \<le> NaN"
  by (simp_all add: less_eq_ieee_def split: ieee.splits)

lemma loop_nan:
  "kdtree_get_limits_loop a ix cnt dm k (NaN, NaN) =
     (if \<forall>j\<in>{k..<cnt}. pt_component a ix j dm \<noteq> None then Some (NaN, NaN) else None)"
proof (induction "cnt - k" arbitrary: k)
  case 0
  then show ?case by (simp add: kdtree_get_limits_loop.simps)
next
  case (Suc n)
  then have k: "k < cnt" "n = cnt - (k + 1)" by simp_all
  note split = atLeastLessThan_split_first [OF k(1)]
  show ?case
  proof (cases "pt_component a ix k dm")
    case None
    with k show ?thesis by (subst kdtree_get_limits_loop.simps) (auto simp: split)
  next
    case (Some v)
    with k Suc.hyps(1) [OF k(2)] show ?thesis
      by (subst kdtree_get_limits_loop.simps) (simp add: split)
  qed
qed

lemma loop_numbers:
  assumes "\<forall>j\<in>{k..<cnt}. pt_component a ix j dm \<noteq> Some NaN"
  shows "kdtree_get_limits_loop a ix cnt dm k (Fin m, Fin M) =
     (if \<forall>j\<in>{k..<cnt}. pt_component a ix j dm \<noteq> None
      then Some (Fin (Min (insert m ((\<lambda>j. number (the (pt_component a ix j dm))) ` {k..<cnt}))),
                 Fin (Max (insert M ((\<lambda>j. number (the (pt_component a ix j dm))) ` {k..<cnt}))))
      else None)"
  using assms
proof (induction "cnt - k" arbitrary: k m M)
  case 0
  then show ?case by (simp add: kdtree_get_limits_loop.simps)
next
  case (Suc n)
  then have k: "k < cnt" "n = cnt - (k + 1)" by simp_all
  note split = atLeastLessThan_split_first [OF k(1)]
  from Suc.prems have rest: "\<forall>j\<in>{k + 1..<cnt}. pt_component a ix j dm \<noteq> Some NaN"
    by (simp add: split)
  show ?case
  proof (cases "pt_component a ix k dm")
    case None
    with k show ?thesis by (subst kdtree_get_limits_loop.simps) (auto simp: split)
  next
    case (Some v)
    with Suc.prems k obtain x where v: "v = Fin x" by (cases v) (auto simp: split)
    have mn: "(if x < m then x else m) = min x m" and mx: "(if M < x then x else M) = max x M"
      by (auto simp: min_def max_def)
    have "kdtree_get_limits_loop a ix cnt dm k (Fin m, Fin M) =
          kdtree_get_limits_loop a ix cnt dm (k + 1) (Fin (min x m), Fin (max x M))"
      using k Some v by (subst kdtree_get_limits_loop.simps) (auto simp: min_def max_def)
    with Suc.hyps(1) [OF k(2) rest, of "min x m" "max x M"] Some v show ?thesis
      by (simp add: split Min_insert_min Max_insert_max)
  qed
qed

lemma loop_ordered:
  "kdtree_get_limits_loop a ix cnt dm k (Fin m, Fin M) = Some (mn, mx) \<Longrightarrow>
   (m :: 'r::linorder) \<le> M \<Longrightarrow> mn \<le> mx"
proof (induction "cnt - k" arbitrary: k m M)
  case 0
  then show ?case by (auto simp: kdtree_get_limits_loop.simps)
next
  case (Suc n)
  then have k: "k < cnt" "n = cnt - (k + 1)" by simp_all
  from Suc.prems(1) k obtain v where v: "pt_component a ix k dm = Some v"
    and r: "kdtree_get_limits_loop a ix cnt dm (k + 1)
              (if v < Fin m then v else Fin m, if Fin M < v then v else Fin M) = Some (mn, mx)"
    by (subst (asm) kdtree_get_limits_loop.simps) (auto split: option.splits)
  show ?case
  proof (cases v)
    case NaN
    with r have "kdtree_get_limits_loop a ix cnt dm (k + 1) (Fin m, Fin M) = Some (mn, mx)"
      by simp
    from Suc.hyps(1) [OF k(2) this Suc.prems(2)] show ?thesis .
  next
    case (Fin x)
    with r have "kdtree_get_limits_loop a ix cnt dm (k + 1)
        (Fin (if x < m then x else m), Fin (if M < x then x else M)) = Some (mn, mx)"
      by (simp add: if_distrib [of Fin] cong: if_cong)
    moreover have "(if x < m then x else m) \<le> (if M < x then x else M)"
      using Suc.prems(2) by auto
    ultimately show ?thesis by (rule Suc.hyps(1) [OF k(2)])
  qed
qed

lemma limits_numbers_ix:
  assumes pos: "0 < cnt" and nn: "\<forall>j\<in>{..<cnt}. pt_component a ix j dm \<noteq> Some NaN"
  shows "kdtree_get_limits a ix cnt dm =
     (if \<forall>j\<in>{..<cnt}. pt_component a ix j dm \<noteq> None
      then Some (Fin (Min ((\<lambda>j. number (the (pt_component a ix j dm))) ` {..<cnt})),
                 Fin (Max ((\<lambda>j. number (the (pt_component a ix j dm))) ` {..<cnt})))
      else None)"
proof -
  let ?F = "\<lambda>j. number (the (pt_component a ix j dm))"
  note s = insert_0_upt [OF pos, symmetric]
  from nn have rest: "\<forall>j\<in>{1..<cnt}. pt_component a ix j dm \<noteq> Some NaN" by simp
  show ?thesis
  proof (cases "pt_component a ix 0 dm")
    case None
    with pos show ?thesis by (auto simp: kdtree_get_limits_def)
  next
    case (Some v)
    with nn pos obtain x where v: "v = Fin x" by (cases v) auto
    have all: "(\<forall>j\<in>{..<cnt}. pt_component a ix j dm \<noteq> None) \<longleftrightarrow>
               (\<forall>j\<in>{1..<cnt}. pt_component a ix j dm \<noteq> None)"
      unfolding s using Some by simp
    have img: "?F ` {..<cnt} = insert x (?F ` {1..<cnt})"
      unfolding s using Some v by simp
    from Some v loop_numbers [OF rest, of x x] show ?thesis
      unfolding kdtree_get_limits_def all img by simp
  qed
qed


text \<open>Claim C1, as the code has it. For a non-empty index subset \<open>ix[0..cnt)\<close> whose entries
  address points of the collection, a dimension every addressed point has, and addressed
  coordinates none of which is a NaN, \<^verbatim>\<open>kdtree_get_limits\<close> leaves in \<^verbatim>\<open>limit_min\<close> the
  minimum and in \<^verbatim>\<open>limit_max\<close> the maximum of the coordinates of those points along that
  dimension.\<close>

theorem kdtree_get_limits_extrema:
  assumes "0 < cnt" and "cnt \<le> length ix"
    and "\<forall>k<cnt. unat (ix ! k) < kdtree_get_point_count a"
    and "\<forall>k<cnt. dm < length (pts (obj a) ! unat (ix ! k))"
    and "\<forall>k<cnt. pts (obj a) ! unat (ix ! k) ! dm \<noteq> NaN"
  shows "kdtree_get_limits a ix cnt dm =
     Some (Fin (Min ((\<lambda>k. number (pts (obj a) ! unat (ix ! k) ! dm)) ` {..<cnt})),
           Fin (Max ((\<lambda>k. number (pts (obj a) ! unat (ix ! k) ! dm)) ` {..<cnt})))"
proof -
  have c: "\<And>j. j \<in> {..<cnt} \<Longrightarrow> pt_component a ix j dm = Some (pts (obj a) ! unat (ix ! j) ! dm)"
    using assms(2-4)
    by (simp add: pt_component_in_range coordinate_Some kdtree_get_point_count_def derived_def)
  have i: "(\<lambda>j. number (the (pt_component a ix j dm))) ` {..<cnt} =
           (\<lambda>k. number (pts (obj a) ! unat (ix ! k) ! dm)) ` {..<cnt}"
    by (rule image_cong) (simp_all add: c)
  have n: "\<forall>j\<in>{..<cnt}. pt_component a ix j dm \<noteq> Some NaN"
    using c assms(5) by simp
  show ?thesis
    unfolding limits_numbers_ix [OF assms(1) n] i using c by simp
qed

text \<open>Claim C9, as the code has it. Whenever \<^verbatim>\<open>kdtree_get_limits\<close> returns, the pair it leaves
  satisfies \<open>limit_min \<le> limit_max\<close> exactly when the coordinate of the first point read is
  not a NaN: both limits start from that coordinate, a step can only decrease
  \<^verbatim>\<open>limit_min\<close> or increase \<^verbatim>\<open>limit_max\<close>, and a NaN read later changes neither.\<close>

theorem kdtree_get_limits_ordered:
  fixes a :: "('r::linorder) ieee PointCloudAdaptor"
  assumes "kdtree_get_limits a ix cnt dm = Some (mn, mx)"
  shows "mn \<le> mx \<longleftrightarrow> pt_component a ix 0 dm \<noteq> Some NaN"
proof -
  from assms obtain v where v: "pt_component a ix 0 dm = Some v"
    and r: "kdtree_get_limits_loop a ix cnt dm 1 (v, v) = Some (mn, mx)"
    by (auto simp: kdtree_get_limits_def split: option.splits)
  show ?thesis
  proof (cases v)
    case NaN
    with r have "mn = NaN" by (auto simp: loop_nan split: if_splits)
    with v NaN show ?thesis by simp
  next
    case (Fin x)
    with r loop_ordered [of a ix cnt dm 1 x x mn mx] have "mn \<le> mx" by simp
    with v Fin show ?thesis by simp
  qed
qed



section \<open>Termination of the build\<close>

text \<open>The build recurses on the two parts of a partition at the midpoint of the extrema of
  the widest dimension. The extrema are attained by points of the range, so when they
  differ each part misses at least one index and is strictly shorter than the range.\<close>

lemma those_eq_Some: "those xs = Some ys \<longleftrightarrow> xs = map Some ys"
  by (induction xs arbitrary: ys) (auto split: option.splits)

lemma computeBoundingBox_Some:
  assumes "computeBoundingBox a D seg = Some box"
  shows "length box = D"
    and "d < D \<Longrightarrow> kdtree_get_limits a seg (length seg) d = Some (box ! d)"
proof -
  from assms have e: "map (\<lambda>d. kdtree_get_limits a seg (length seg) d) [0..<D] = map Some box"
    by (simp add: computeBoundingBox_def those_eq_Some)
  from arg_cong [OF e, of length] show l: "length box = D" by simp
  assume "d < D"
  with l arg_cong [OF e, of "\<lambda>xs. xs ! d"]
  show "kdtree_get_limits a seg (length seg) d = Some (box ! d)" by simp
qed

lemma widestDim_Some:
  "widestDim d0 box = Some (dm, mn, mx) \<Longrightarrow>
   d0 \<le> dm \<and> dm < d0 + length box \<and> box ! (dm - d0) = (mn, mx)"
proof (induction d0 box arbitrary: dm mn mx rule: widestDim.induct)
  case (1 d)
  then show ?case by simp
next
  case (2 d mn0 mx0 box)
  show ?case
  proof (cases "widestDim (d + 1) box")
    case None
    with "2.prems" show ?thesis by simp
  next
    case (Some r)
    obtain d' mn' mx' where r: "r = (d', mn', mx')" by (cases r)
    show ?thesis
    proof (cases "mx0 - mn0 < mx' - mn'")
      case True
      with "2.prems" Some r have "(dm, mn, mx) = (d', mn', mx')" by simp
      with "2.IH" [of d' mn' mx'] Some r
      have h: "d + 1 \<le> dm" "dm < d + 1 + length box" "box ! (dm - (d + 1)) = (mn, mx)"
        by simp_all
      from h(1) have e: "dm - d = Suc (dm - (d + 1))" by arith
      from h show ?thesis unfolding e by simp
    next
      case False
      with "2.prems" Some r show ?thesis by simp
    qed
  qed
qed

lemma limits_attained:
  fixes a :: "('c::linorder) PointCloudAdaptor"
  assumes "seg \<noteq> []" and "kdtree_get_limits a seg (length seg) dm = Some (mn, mx)"
  shows "\<forall>i\<in>set seg. \<exists>c. coordinate a (unat i) dm = Some c \<and> mn \<le> c \<and> c \<le> mx"
    and "\<exists>i\<in>set seg. coordinate a (unat i) dm = Some mn"
    and "\<exists>i\<in>set seg. coordinate a (unat i) dm = Some mx"
proof -
  let ?S = "(\<lambda>i. the (coordinate a (unat i) dm)) ` set seg"
  from assms(1) have pos: "0 < length seg" by simp
  have fin: "finite ?S" "?S \<noteq> {}" using assms(1) by simp_all
  from assms(2) limits_set_char [OF pos order_refl, of a dm]
  have def: "\<forall>i\<in>set seg. coordinate a (unat i) dm \<noteq> None"
    and mn: "mn = Min ?S" and mx: "mx = Max ?S"
    by (auto split: if_splits)
  show "\<forall>i\<in>set seg. \<exists>c. coordinate a (unat i) dm = Some c \<and> mn \<le> c \<and> c \<le> mx"
  proof
    fix i assume i: "i \<in> set seg"
    with def obtain c where c: "coordinate a (unat i) dm = Some c" by auto
    with i have "c \<in> ?S" by force
    with fin have "Min ?S \<le> c" "c \<le> Max ?S" by simp_all
    with c mn mx show "\<exists>c. coordinate a (unat i) dm = Some c \<and> mn \<le> c \<and> c \<le> mx" by simp
  qed
  from Min_in [OF fin] mn obtain i where "i \<in> set seg" "mn = the (coordinate a (unat i) dm)"
    by auto
  with def show "\<exists>i\<in>set seg. coordinate a (unat i) dm = Some mn" by force
  from Max_in [OF fin] mx obtain j where "j \<in> set seg" "mx = the (coordinate a (unat j) dm)"
    by auto
  with def show "\<exists>i\<in>set seg. coordinate a (unat i) dm = Some mx" by force
qed

lemma planeSplit_Some:
  "planeSplit a seg dm s = Some (l, r) \<Longrightarrow>
   mset l + mset r = mset seg \<and>
   (\<forall>i\<in>set l. \<exists>c. coordinate a (unat i) dm = Some c \<and> c \<le> s) \<and>
   (\<forall>i\<in>set r. \<exists>c. coordinate a (unat i) dm = Some c \<and> s < c)"
proof (induction seg arbitrary: l r)
  case Nil
  then show ?case by simp
next
  case (Cons i seg)
  from Cons.prems obtain c l0 r0 where c: "coordinate a (unat i) dm = Some c"
    and rec: "planeSplit a seg dm s = Some (l0, r0)"
    and res: "(l, r) = (if c \<le> s then (i # l0, r0) else (l0, i # r0))"
    by (auto split: option.splits if_splits)
  from Cons.IH [OF rec] c res show ?case
    by (cases "c \<le> s") auto
qed

lemma planeSplit_defined:
  "\<forall>i\<in>set seg. coordinate a (unat i) dm \<noteq> None \<Longrightarrow> \<exists>l r. planeSplit a seg dm s = Some (l, r)"
  by (induction seg) (auto split: option.splits)

lemma planeSplit_proper:
  assumes seg: "seg \<noteq> []"
    and box: "computeBoundingBox a D seg = Some box"
    and wd: "widestDim 0 box = Some (dm, mn, mx)"
    and lt: "mn < mx"
    and ps: "planeSplit a seg dm ((mn + mx) / 2) = Some (l, r)"
  shows "length l < length seg" and "length r < length seg"
proof -
  from widestDim_Some [OF wd] have dm: "dm < length box" and b: "box ! dm = (mn, mx)" by simp_all
  from computeBoundingBox_Some [OF box] dm b
  have lim: "kdtree_get_limits a seg (length seg) dm = Some (mn, mx)" by simp
  from lt have mid: "mn \<le> (mn + mx) / 2" "(mn + mx) / 2 < mx" by (simp_all add: field_simps)
  from planeSplit_Some [OF ps]
  have ms: "mset l + mset r = mset seg"
    and L: "\<forall>i\<in>set l. \<exists>c. coordinate a (unat i) dm = Some c \<and> c \<le> (mn + mx) / 2"
    and R: "\<forall>i\<in>set r. \<exists>c. coordinate a (unat i) dm = Some c \<and> (mn + mx) / 2 < c"
    by simp_all
  from arg_cong [OF ms, of size] have len: "length l + length r = length seg" by simp
  from arg_cong [OF ms, of set_mset] have st: "set l \<union> set r = set seg" by simp
  from limits_attained(2) [OF seg lim] obtain i where i: "i \<in> set seg"
    "coordinate a (unat i) dm = Some mn" by blast
  from limits_attained(3) [OF seg lim] obtain j where j: "j \<in> set seg"
    "coordinate a (unat j) dm = Some mx" by blast
  from i R mid have "i \<notin> set r" by force
  with i st have "i \<in> set l" by blast
  then have "l \<noteq> []" by auto
  from j L mid have "j \<notin> set l" by force
  with j st have "j \<in> set r" by blast
  then have "r \<noteq> []" by auto
  from \<open>r \<noteq> []\<close> len show "length l < length seg" by (cases r) auto
  from \<open>l \<noteq> []\<close> len show "length r < length seg" by (cases l) auto
qed

termination build_tree
proof (relation "measure (\<lambda>(a, lfsz, D, lo, seg). length seg)", goal_cases)
  case 1
  show ?case by simp
next
  case (2 a lfsz D lo seg box wd dm rest mn mx lr left right)
  then show ?case using planeSplit_proper(1) [of seg a D box dm mn mx left right] by simp
next
  case (3 a lfsz D lo seg box wd dm rest mn mx lr left right lres lnode left')
  then show ?case using planeSplit_proper(2) [of seg a D box dm mn mx left right] by simp
qed

declare build_tree.simps [simp del]

section \<open>The result collector keeps the best candidates\<close>

text \<open>Inserting into the result set and cutting a sorted list after \<open>k\<close> elements commute;
  a candidate that is not strictly better than the worst one held changes nothing, which
  is what makes pruning sound. The lower bound of a box is below the distance of every
  point inside it.\<close>

lemma map_insort_key: "map f (insort_key f x xs) = insort (f x) (map f xs)"
  by (induction xs) auto

lemma take_insort_take:
  "sorted S \<Longrightarrow> take k (insort d S) = take k (insort d (take k S))"
proof (induction S arbitrary: k)
  case Nil
  then show ?case by simp
next
  case (Cons x xs)
  show ?case
  proof (cases k)
    case 0
    then show ?thesis by simp
  next
    case (Suc k')
    from Cons.prems have "sorted xs" by simp
    from Cons.IH [OF this, of k'] Suc show ?thesis
      by (cases k') auto
  qed
qed

lemma le_last_sorted: "sorted xs \<Longrightarrow> z \<in> set xs \<Longrightarrow> z \<le> last xs"
  by (induction xs) auto

lemma const_butlast: "\<forall>z\<in>set xs. z = x \<Longrightarrow> xs \<noteq> [] \<Longrightarrow> x # butlast xs = xs"
  by (induction xs) auto

lemma insort_ne: "insort d xs \<noteq> []"
  by (cases xs) auto

lemma butlast_insort:
  "sorted T \<Longrightarrow> T \<noteq> [] \<Longrightarrow>
   butlast (insort d T) = (if d < last T then insort d (butlast T) else T)"
proof (induction T)
  case Nil
  then show ?case by simp
next
  case (Cons x xs)
  show ?case
  proof (cases "xs = []")
    case True
    then show ?thesis by auto
  next
    case ne: False
    from Cons.prems have s: "sorted xs" and le: "\<forall>z\<in>set xs. x \<le> z" by simp_all
    from ne le have xl: "x \<le> last xs" by simp
    show ?thesis
    proof (cases "d \<le> x")
      case True
      show ?thesis
      proof (cases "d < last xs")
        case True
        with \<open>d \<le> x\<close> ne show ?thesis by simp
      next
        case False
        with \<open>d \<le> x\<close> xl have dx: "d = x" and xlast: "last xs = x" by auto
        have "\<forall>z\<in>set xs. z = x"
        proof
          fix z assume z: "z \<in> set xs"
          with le have "x \<le> z" by simp
          moreover from le_last_sorted [OF s z] xlast have "z \<le> x" by simp
          ultimately show "z = x" by simp
        qed
        from const_butlast [OF this ne] False dx ne show ?thesis by simp
      qed
    next
      case False
      with Cons.IH [OF s ne] ne show ?thesis by (auto simp: insort_ne)
    qed
  qed
qed

lemma take_length_insort:
  assumes "sorted T" "T \<noteq> []"
  shows "take (length T) (insort d T) = (if d < last T then insort d (butlast T) else T)"
proof -
  have "take (length T) (insort d T) = butlast (insort d T)"
    by (simp add: butlast_conv_take)
  with butlast_insort [OF assms] show ?thesis by simp
qed

lemma collects_init: "collects k {#} \<lparr>capacity = k, items = []\<rparr>"
  by (simp add: collects_def)

lemma take_insort_full:
  assumes S: "sorted S" and D: "D = take k S"
  shows "take k (insort d S) =
     (if length D < k then insort d D
      else if D = [] then []
      else if d < last D then insort d (butlast D) else D)"
proof -
  from S D have sD: "sorted D" by (simp add: sorted_wrt_take)
  have e: "take k (insort d S) = take k (insort d D)"
    unfolding D by (rule take_insort_take [OF S])
  show ?thesis
  proof (cases "length D < k")
    case True
    then have "length (insort d D) \<le> k" by simp
    with e True show ?thesis by simp
  next
    case False
    with D have lk: "length D = k" by simp
    show ?thesis
    proof (cases "D = []")
      case True
      with lk e False show ?thesis by simp
    next
      case ne: False
      from take_length_insort [OF sD ne, of d] lk e False ne show ?thesis by simp
    qed
  qed
qed

lemma insert_collects:
  assumes "collects k C rs"
  shows "collects k (add_mset cand C) (insert_result rs cand)"
proof -
  let ?S = "sorted_list_of_multiset (image_mset snd C)"
  let ?D = "map snd (items rs)"
  from assms have cap: "capacity rs = k" and sub: "mset (items rs) \<subseteq># C"
    and D: "?D = take k ?S" by (simp_all add: collects_def)
  have S: "sorted ?S" by simp
  have target: "take k (sorted_list_of_multiset (image_mset snd (add_mset cand C))) =
     (if length ?D < k then insort (snd cand) ?D
      else if ?D = [] then []
      else if snd cand < last ?D then insort (snd cand) (butlast ?D) else ?D)"
    using take_insort_full [OF S D, of "snd cand"] by simp
  from D have len: "length ?D \<le> k" by simp
  show ?thesis
  proof (cases "isFull rs")
    case False
    with cap len have lt: "length ?D < k" by (simp add: isFull_def)
    from False have r: "insert_result rs cand = rs\<lparr>items := insort_key snd cand (items rs)\<rparr>"
      by (simp add: insert_result_def)
    show ?thesis
      unfolding r collects_def target using lt cap sub
      by (simp add: map_insort_key mset_subset_eq_add_mset_cancel)
  next
    case True
    with cap have full: "length ?D = k" by (simp add: isFull_def)
    show ?thesis
    proof (cases "items rs = []")
      case Nil: True
      with True have r: "insert_result rs cand = rs"
        by (simp add: insert_result_def worstDistance_def)
      show ?thesis
        unfolding r collects_def target using Nil full cap by simp
    next
      case ne: False
      then have w: "worstDistance rs = Some (last ?D)"
        using True by (simp add: worstDistance_def last_map)
      show ?thesis
      proof (cases "snd cand < last ?D")
        case lt: True
        with True w have r: "insert_result rs cand =
            rs\<lparr>items := insort_key snd cand (butlast (items rs))\<rparr>"
          by (simp add: insert_result_def)
        have "mset (butlast (items rs)) \<subseteq># mset (items rs)"
          using ne by (metis append_butlast_last_id mset_subset_eq_add_left mset_append)
        from this sub have "mset (butlast (items rs)) \<subseteq># C" by (rule subset_mset.order_trans)
        then show ?thesis
          unfolding r collects_def target using lt full cap ne
          by (simp add: map_insort_key map_butlast mset_subset_eq_add_mset_cancel)
      next
        case ge: False
        with True w have r: "insert_result rs cand = rs"
          by (simp add: insert_result_def)
        have "mset (items rs) \<subseteq># add_mset cand C"
          using subset_mset.order_trans [OF sub mset_subset_eq_add_right [of C "{#cand#}"]] by simp
        then show ?thesis
          unfolding r collects_def target using ge full cap ne by simp
      qed
    qed
  qed
qed

lemma skip_one_collects:
  assumes c: "collects k C rs" and full: "isFull rs"
    and far: "worstDistance rs = None \<or> (\<exists>w. worstDistance rs = Some w \<and> w \<le> snd cand)"
  shows "collects k (add_mset cand C) rs"
proof -
  from far full have "insert_result rs cand = rs"
    by (auto simp: insert_result_def)
  with insert_collects [OF c, of cand] show ?thesis by simp
qed

lemma skip_collects:
  assumes c: "collects k C rs" and full: "isFull rs"
    and far: "worstDistance rs = None \<or> (\<exists>w. worstDistance rs = Some w \<and> (\<forall>cand\<in>set ys. w \<le> snd cand))"
  shows "collects k (C + mset ys) rs"
  using far
proof (induction ys)
  case Nil
  with c show ?case by simp
next
  case (Cons y ys)
  then have "collects k (C + mset ys) rs" by auto
  from skip_one_collects [OF this full, of y] Cons.prems show ?case by auto
qed

lemma sum_list_squares_nonneg:
  "0 \<le> (\<Sum>(a, b) \<leftarrow> xs. (a - b) * (a - b) :: 'c::linordered_field)"
  by (rule sum_list_nonneg) auto

lemma distance_nonneg: "0 \<le> Point_get_distance_to p (q :: ('c::linordered_field) Point)"
  unfolding Point_get_distance_to_def by (rule sum_list_squares_nonneg)

lemma boxDistance_nonneg: "0 \<le> boxDistance q (box :: ('c::linordered_field) BoundingBox)"
  unfolding boxDistance_def by (rule sum_list_nonneg) auto

lemma gap_le:
  fixes c v mn mx :: "'c::linordered_field"
  assumes "mn \<le> v" "v \<le> mx"
  shows "(if c < mn then (mn - c) * (mn - c) else if mx < c then (c - mx) * (c - mx) else 0)
         \<le> (v - c) * (v - c)"
proof -
  have "(mn - c) * (mn - c) \<le> (v - c) * (v - c)" if "c < mn"
    using that assms by (intro mult_mono) auto
  moreover have "(c - mx) * (c - mx) \<le> (v - c) * (v - c)" if "mx < c"
  proof -
    have "(c - mx) * (c - mx) \<le> (c - v) * (c - v)"
      using that assms by (intro mult_mono) auto
    also have "\<dots> = (v - c) * (v - c)" by (simp add: algebra_simps)
    finally show ?thesis .
  qed
  ultimately show ?thesis by auto
qed

lemma boxDistance_le:
  fixes p q :: "('c::linordered_field) Point"
  assumes "length p = length q"
    and "\<forall>d<length box. d < length p \<and> fst (box ! d) \<le> p ! d \<and> p ! d \<le> snd (box ! d)"
  shows "boxDistance q box \<le> Point_get_distance_to p q"
  using assms
proof (induction box arbitrary: p q)
  case Nil
  then show ?case by (simp add: boxDistance_def distance_nonneg)
next
  case (Cons b box)
  from Cons.prems(2) have "0 < length p" by auto
  then obtain v p' where p: "p = v # p'" by (cases p) auto
  with Cons.prems(1) obtain c q' where q: "q = c # q'" by (cases q) auto
  obtain mn mx where b: "b = (mn, mx)" by (cases b)
  from Cons.prems(2) p b have v: "mn \<le> v" "v \<le> mx" by auto
  have rest: "\<forall>d<length box. d < length p' \<and> fst (box ! d) \<le> p' ! d \<and> p' ! d \<le> snd (box ! d)"
  proof (intro allI impI)
    fix d assume "d < length box"
    then have "Suc d < length (b # box)" by simp
    with Cons.prems(2) [rule_format, of "Suc d"] p
    show "d < length p' \<and> fst (box ! d) \<le> p' ! d \<and> p' ! d \<le> snd (box ! d)" by simp
  qed
  from Cons.prems(1) p q have "length p' = length q'" by simp
  from Cons.IH [OF this rest] have "boxDistance q' box \<le> Point_get_distance_to p' q'" .
  with gap_le [OF v, of c] show ?case
    unfolding p q b boxDistance_def Point_get_distance_to_def by (simp add: add_mono)
qed

section \<open>The build establishes the invariant of the tree\<close>

lemma kdtree_get_pt_valid:
  "valid_ix a D i \<Longrightarrow> kdtree_get_pt a (unat i) = Some \<lparr>point = pts (obj a) ! unat i\<rparr>"
  by (simp add: valid_ix_def kdtree_get_pt_def derived_def)

lemma coordinate_valid:
  "valid_ix a D i \<Longrightarrow> d < D \<Longrightarrow> coordinate a (unat i) d = Some (pts (obj a) ! unat i ! d)"
  by (simp add: valid_ix_def coordinate_Some)

lemma tree_inv_box: "tree_inv a D perm t \<Longrightarrow> box_ok a D (node_indices perm t) (bbox t)"
  by (cases t) simp_all

lemma searchLeaf_collects:
  assumes "\<forall>i\<in>set ixs. valid_ix a D i" and "collects k C rs"
  shows "\<exists>rs'. searchLeaf a q ixs rs = Some rs' \<and>
               collects k (C + mset (map (candidate a q) ixs)) rs'"
  using assms
proof (induction ixs arbitrary: C rs)
  case Nil
  then show ?case by simp
next
  case (Cons i ixs)
  from Cons.prems(1) have v: "valid_ix a D i" and vs: "\<forall>i\<in>set ixs. valid_ix a D i" by simp_all
  let ?c = "candidate a q i"
  have step: "searchLeaf a q (i # ixs) rs = searchLeaf a q ixs (insert_result rs ?c)"
    by (simp add: kdtree_get_pt_valid [OF v] candidate_def get_distance_to_def)
  from Cons.IH [OF vs insert_collects [OF Cons.prems(2), of ?c]]
  show ?case unfolding step by (simp add: add.commute add.left_commute)
qed

lemma those_map_Some:
  "\<forall>x\<in>set xs. f x \<noteq> None \<Longrightarrow> those (map f xs) = Some (map (\<lambda>x. the (f x)) xs)"
  by (induction xs) auto

lemma limits_defined:
  fixes a :: "('c::linorder) PointCloudAdaptor"
  assumes "seg \<noteq> []" and "\<forall>i\<in>set seg. valid_ix a D i" and "d < D"
  shows "kdtree_get_limits a seg (length seg) d \<noteq> None"
proof -
  from assms(1) have pos: "0 < length seg" by simp
  have "\<forall>i\<in>set seg. coordinate a (unat i) d \<noteq> None"
  proof
    fix i assume "i \<in> set seg"
    with assms(2) have "valid_ix a D i" by simp
    from coordinate_valid [OF this assms(3)] show "coordinate a (unat i) d \<noteq> None" by simp
  qed
  with limits_set_char [OF pos order_refl, of a d] show ?thesis by simp
qed

lemma computeBoundingBox_defined:
  assumes "seg \<noteq> []" and "\<forall>i\<in>set seg. valid_ix a D i"
  shows "\<exists>box. computeBoundingBox a D seg = Some box"
  unfolding computeBoundingBox_def
  using those_map_Some [of "[0..<D]" "\<lambda>d. kdtree_get_limits a seg (length seg) d"]
    limits_defined [OF assms] by simp

lemma box_ok_computed:
  assumes box: "computeBoundingBox a D seg = Some box"
    and seg: "seg \<noteq> []" and v: "\<forall>i\<in>set seg. valid_ix a D i"
  shows "box_ok a D seg box"
  unfolding box_ok_def
proof (intro ballI conjI allI impI)
  fix i assume i: "i \<in> set seg"
  with v show vi: "valid_ix a D i" by simp
  fix d assume "d < length box"
  with computeBoundingBox_Some(1) [OF box] show d: "d < D" by simp
  from computeBoundingBox_Some(2) [OF box d]
  have "kdtree_get_limits a seg (length seg) d = Some (fst (box ! d), snd (box ! d))" by simp
  from limits_attained(1) [OF seg this] i coordinate_valid [OF vi d]
  show "fst (box ! d) \<le> pts (obj a) ! unat i ! d" "pts (obj a) ! unat i ! d \<le> snd (box ! d)"
    by auto
qed

lemma box_ok_cong: "set ixs = set ixs' \<Longrightarrow> box_ok a D ixs box = box_ok a D ixs' box"
  by (simp add: box_ok_def)

lemma built_leaf:
  "box_ok a D seg box \<Longrightarrow> built a D lo seg (Leaf box lo (lo + length seg)) seg"
  by (simp add: built_def)

lemma built_empty: "built a D lo [] (Leaf [] lo lo) []"
  by (simp add: built_def box_ok_def)

lemma built_internal:
  assumes ms: "mset left + mset right = mset seg"
    and l: "built a D lo left lnode left'"
    and r: "built a D (lo + length left) right rnode right'"
    and dm: "dm < D" and box: "box_ok a D seg box"
  shows "built a D lo seg (Internal box dm split lnode rnode) (left' @ right')"
proof -
  from l have ml: "mset left' = mset left" by (simp add: built_def)
  from r have mr: "mset right' = mset right" by (simp add: built_def)
  from ml have len: "length left' = length left" by (rule mset_eq_length)
  from ml mr ms have m: "mset (left' @ right') = mset seg" by simp
  then have st: "set (left' @ right') = set seg" by (rule mset_eq_setD)
  have "node_indices (pre @ (left' @ right') @ post) (Internal box dm split lnode rnode)
          = left' @ right' \<and>
        tree_inv a D (pre @ (left' @ right') @ post) (Internal box dm split lnode rnode)"
    if pre: "length pre = lo" for pre post
  proof -
    from l pre have L: "node_indices (pre @ left' @ (right' @ post)) lnode = left'"
      "tree_inv a D (pre @ left' @ (right' @ post)) lnode"
      unfolding built_def by blast+
    from pre len have "length (pre @ left') = lo + length left" by simp
    with r have R: "node_indices ((pre @ left') @ right' @ post) rnode = right'"
      "tree_inv a D ((pre @ left') @ right' @ post) rnode"
      unfolding built_def by blast+
    from box box_ok_cong [OF st, of a D box] have "box_ok a D (left' @ right') box"
      by simp
    with L R dm show ?thesis by simp
  qed
  with m show ?thesis unfolding built_def by blast
qed

lemma build_tree_ok:
  "\<forall>i\<in>set seg. valid_ix a D i \<Longrightarrow>
   \<exists>node seg'. build_tree a lfsz D lo seg = Some (node, seg') \<and> built a D lo seg node seg'"
proof (induction a lfsz D lo seg rule: build_tree.induct)
  case (1 a lfsz D lo seg)
  note v = "1.prems"
  show ?case
  proof (cases "seg = []")
    case True
    then show ?thesis by (subst build_tree.simps) (simp add: built_empty)
  next
    case ne: False
    from computeBoundingBox_defined [OF ne v] obtain box
      where box: "computeBoundingBox a D seg = Some box" ..
    from box_ok_computed [OF box ne v] have bo: "box_ok a D seg box" .
    note leaf = built_leaf [OF bo, of lo]
    show ?thesis
    proof (cases "length seg \<le> lfsz")
      case True
      with ne box leaf show ?thesis by (subst build_tree.simps) simp
    next
      case big: False
      show ?thesis
      proof (cases "widestDim 0 box")
        case None
        with ne box big leaf show ?thesis by (subst build_tree.simps) simp
      next
        case (Some w)
        obtain dm mn mx where w: "w = (dm, mn, mx)" by (cases w)
        note wd = Some [unfolded w]
        show ?thesis
        proof (cases "mn < mx")
          case False
          with ne box big wd leaf show ?thesis by (subst build_tree.simps) simp
        next
          case lt: True
          from widestDim_Some [OF wd] computeBoundingBox_Some(1) [OF box]
          have dm: "dm < D" by simp
          have "\<forall>i\<in>set seg. coordinate a (unat i) dm \<noteq> None"
          proof
            fix i assume "i \<in> set seg"
            with v have "valid_ix a D i" by simp
            from coordinate_valid [OF this dm] show "coordinate a (unat i) dm \<noteq> None" by simp
          qed
          from planeSplit_defined [OF this, of "(mn + mx) / 2"] obtain left right
            where ps: "planeSplit a seg dm ((mn + mx) / 2) = Some (left, right)" by blast
          from planeSplit_Some [OF ps] have ms: "mset left + mset right = mset seg" by simp
          from arg_cong [OF ms, of set_mset] have st: "set left \<union> set right = set seg" by simp
          from st v have vl: "\<forall>i\<in>set left. valid_ix a D i"
            and vr: "\<forall>i\<in>set right. valid_ix a D i" by auto
          have nn: "\<not> \<not> mn < mx" using lt by simp
          from "1.IH"(1) [OF ne box big wd refl refl nn ps refl vl]
          obtain lnode left' where bl: "build_tree a lfsz D lo left = Some (lnode, left')"
            and Bl: "built a D lo left lnode left'" by blast
          from "1.IH"(2) [OF ne box big wd refl refl nn ps refl bl refl vr]
          obtain rnode right'
            where br: "build_tree a lfsz D (lo + length left) right = Some (rnode, right')"
            and Br: "built a D (lo + length left) right rnode right'" by blast
          have "build_tree a lfsz D lo seg =
                Some (Internal box dm ((mn + mx) / 2) lnode rnode, left' @ right')"
            using ne box big wd lt ps bl br by (subst build_tree.simps) simp
          with built_internal [OF ms Bl Br dm bo] show ?thesis by blast
        qed
      qed
    qed
  qed
qed

section \<open>The search\<close>

text \<open>The traversal offers or soundly skips every index of the subtree: afterwards the
  result set holds the best of the candidates it held before and those of the subtree.
  A radius query with a negative radius returns what it was given.\<close>

lemma query_signed_distance:
  "dm < length q \<Longrightarrow> get_signed_distance \<lparr>point = q\<rparr> dm split = Some (q ! dm - split)"
  by (simp add: get_signed_distance_def Point_get_signed_distance_def Point_get_component_def)

lemma box_lower_bound:
  assumes box: "box_ok a D ixs box" and q: "length q = D" and i: "i \<in> set ixs"
  shows "boxDistance q box \<le> snd (candidate a q i)"
proof -
  let ?p = "pts (obj a) ! unat i"
  from box i have v: "valid_ix a D i"
    and b: "\<forall>d<length box. d < D \<and> fst (box ! d) \<le> ?p ! d \<and> ?p ! d \<le> snd (box ! d)"
    unfolding box_ok_def by blast+
  from v q have len: "length ?p = length q" by (simp add: valid_ix_def)
  from v b have "\<forall>d<length box. d < length ?p \<and> fst (box ! d) \<le> ?p ! d \<and> ?p ! d \<le> snd (box ! d)"
    by (simp add: valid_ix_def)
  from boxDistance_le [OF len this] show ?thesis by (simp add: candidate_def)
qed

lemma far_child_collects:
  assumes inv: "tree_inv (adaptor idx) D (vind idx) far" and q: "length q = D"
    and c: "collects k C rs"
    and IH: "\<And>C rs. collects k C rs \<Longrightarrow>
        \<exists>rs'. searchLevel idx q far rs = Some rs' \<and>
              collects k (C + mset (map (candidate (adaptor idx) q) (node_indices (vind idx) far))) rs'"
  shows "\<exists>rs'. (if descendFar rs (boxDistance q (bbox far))
                then searchLevel idx q far rs else Some rs) = Some rs' \<and>
     collects k (C + mset (map (candidate (adaptor idx) q) (node_indices (vind idx) far))) rs'"
proof (cases "descendFar rs (boxDistance q (bbox far))")
  case True
  with IH [OF c] show ?thesis by simp
next
  case False
  then have full: "isFull rs"
    and w: "worstDistance rs = None \<or>
            (\<exists>w. worstDistance rs = Some w \<and> w \<le> boxDistance q (bbox far))"
    by (auto simp: descendFar_def split: option.splits)
  let ?ys = "map (candidate (adaptor idx) q) (node_indices (vind idx) far)"
  have "\<forall>cand\<in>set ?ys. boxDistance q (bbox far) \<le> snd cand"
    using box_lower_bound [OF tree_inv_box [OF inv] q] by auto
  with w have "worstDistance rs = None \<or>
            (\<exists>w. worstDistance rs = Some w \<and> (\<forall>cand\<in>set ?ys. w \<le> snd cand))"
    by (meson order_trans)
  from skip_collects [OF c full this] False show ?thesis by simp
qed

lemma searchLevel_collects:
  assumes "tree_inv (adaptor idx) D (vind idx) t" and "length q = D" and "collects k C rs"
  shows "\<exists>rs'. searchLevel idx q t rs = Some rs' \<and>
     collects k (C + mset (map (candidate (adaptor idx) q) (node_indices (vind idx) t))) rs'"
  using assms
proof (induction t arbitrary: C rs)
  case (Leaf box lo hi)
  from Leaf.prems(1) have "\<forall>i\<in>set (take (hi - lo) (drop lo (vind idx))). valid_ix (adaptor idx) D i"
    by (simp add: box_ok_def)
  from searchLeaf_collects [OF this Leaf.prems(3)] show ?case by simp
next
  case (Internal box dm split left right)
  from Internal.prems(1) have dm: "dm < D"
    and il: "tree_inv (adaptor idx) D (vind idx) left"
    and ir: "tree_inv (adaptor idx) D (vind idx) right" by simp_all
  note q = Internal.prems(2)
  from dm q have sd: "get_signed_distance \<lparr>point = q\<rparr> dm split = Some (q ! dm - split)"
    by (simp add: query_signed_distance)
  let ?L = "mset (map (candidate (adaptor idx) q) (node_indices (vind idx) left))"
  let ?R = "mset (map (candidate (adaptor idx) q) (node_indices (vind idx) right))"
  show ?case
  proof (cases "q ! dm - split \<le> 0")
    case True
    from Internal.IH(1) [OF il q Internal.prems(3)] obtain rs1
      where s1: "searchLevel idx q left rs = Some rs1" and c1: "collects k (C + ?L) rs1" by blast
    from far_child_collects [OF ir q c1 Internal.IH(2) [OF ir q]] s1 sd True
    show ?thesis by (simp add: add.assoc)
  next
    case False
    from Internal.IH(2) [OF ir q Internal.prems(3)] obtain rs1
      where s1: "searchLevel idx q right rs = Some rs1" and c1: "collects k (C + ?R) rs1" by blast
    have e: "C + ?R + ?L =
        C + mset (map (candidate (adaptor idx) q)
                   (node_indices (vind idx) (Internal box dm split left right)))"
      by simp
    from far_child_collects [OF il q c1 Internal.IH(1) [OF il q]] obtain rs'
      where "(if descendFar rs1 (boxDistance q (bbox left))
              then searchLevel idx q left rs1 else Some rs1) = Some rs'"
        and "collects k (C + ?R + ?L) rs'" by blast
    with s1 sd False show ?thesis unfolding e by simp
  qed
qed

lemma radiusLeaf_negative:
  assumes "\<forall>i\<in>set ixs. valid_ix a D i" and "radius < 0"
  shows "radiusLeaf a q radius ixs found = Some found"
  using assms(1)
proof (induction ixs)
  case Nil
  then show ?case by simp
next
  case (Cons i ixs)
  then have v: "valid_ix a D i" by simp
  have "0 \<le> get_distance_to \<lparr>point = pts (obj a) ! unat i\<rparr> \<lparr>point = q\<rparr>"
    by (simp add: get_distance_to_def distance_nonneg)
  with assms(2) have "\<not> get_distance_to \<lparr>point = pts (obj a) ! unat i\<rparr> \<lparr>point = q\<rparr> \<le> radius"
    by simp
  with Cons kdtree_get_pt_valid [OF v] show ?case by simp
qed

lemma radiusLevel_negative:
  assumes "tree_inv (adaptor idx) D (vind idx) t" and "length q = D" and "radius < 0"
  shows "radiusLevel idx q radius t found = Some found"
  using assms(1)
proof (induction t)
  case (Leaf box lo hi)
  then have "\<forall>i\<in>set (take (hi - lo) (drop lo (vind idx))). valid_ix (adaptor idx) D i"
    by (simp add: box_ok_def)
  from radiusLeaf_negative [OF this assms(3)] show ?case by simp
next
  case (Internal box dm split left right)
  then have dm: "dm < D"
    and l: "radiusLevel idx q radius left found = Some found"
    and r: "radiusLevel idx q radius right found = Some found" by simp_all
  from dm assms(2) have sd: "get_signed_distance \<lparr>point = q\<rparr> dm split = Some (q ! dm - split)"
    by (simp add: query_signed_distance)
  from l r sd show ?case by simp
qed

section \<open>Completeness of the k-nearest search; degenerate queries\<close>


lemma unat_index: "j < 2 ^ 32 \<Longrightarrow> unat (of_nat j :: 32 word) = j"
  by (simp add: unat_of_nat)

lemma identity_valid:
  assumes "\<forall>p\<in>set (pts (obj a)). length p = D" and "kdtree_get_point_count a \<le> 2 ^ 32"
  shows "\<forall>i\<in>set (map of_nat [0..<kdtree_get_point_count a]). valid_ix a D i"
proof
  fix i :: "32 word" assume "i \<in> set (map of_nat [0..<kdtree_get_point_count a])"
  then obtain j where j: "j < kdtree_get_point_count a" and i: "i = of_nat j" by auto
  from j assms(2) have "unat i = j" unfolding i by (intro unat_index) simp
  with j assms(1) show "valid_ix a D i"
    by (simp add: valid_ix_def kdtree_get_point_count_def derived_def)
qed


lemma buildIndex_ok:
  assumes "\<forall>p\<in>set (pts (obj a)). length p = D" and "kdtree_get_point_count a \<le> 2 ^ 32"
  shows "\<exists>idx. buildIndex D a lfsz = Some idx \<and> adaptor idx = a \<and>
           tree_inv a D (vind idx) (root idx) \<and>
           node_indices (vind idx) (root idx) = vind idx \<and>
           mset (vind idx) = mset (map of_nat [0..<kdtree_get_point_count a])"
proof -
  let ?ident = "map of_nat [0..<kdtree_get_point_count a] :: 32 word list"
  from build_tree_ok [OF identity_valid [OF assms], of lfsz 0] obtain node perm
    where b: "build_tree a lfsz D 0 ?ident = Some (node, perm)"
      and B: "built a D 0 ?ident node perm" by blast
  from B have "mset perm = mset ?ident"
    and "node_indices ([] @ perm @ []) node = perm \<and> tree_inv a D ([] @ perm @ []) node"
    unfolding built_def by blast+
  with b show ?thesis by (simp add: buildIndex_def)
qed




text \<open>Claim C7. For every query point (of the dimension of the index), \<open>findKNearest\<close> with
  \<open>k = 0\<close> and \<open>findInRadius\<close> with a negative radius each return, and return an empty
  result.\<close>

theorem degenerate_queries_empty:
  assumes "\<forall>p\<in>set (pts (obj a)). length p = D" and "kdtree_get_point_count a \<le> 2 ^ 32"
    and "length q = D" and "radius < 0"
  shows "\<exists>idx. buildIndex D a lfsz = Some idx \<and>
     findKNearest idx q 0 = Some \<lparr>capacity = 0, items = []\<rparr> \<and>
     findInRadius idx q radius = Some []"
proof -
  from buildIndex_ok [OF assms(1,2), of lfsz] obtain idx
    where b: "buildIndex D a lfsz = Some idx"
      and inv: "tree_inv (adaptor idx) D (vind idx) (root idx)"
    by auto
  from searchLevel_collects [OF inv assms(3) collects_init, of 0] obtain rs
    where s: "findKNearest idx q 0 = Some rs" and "capacity rs = 0" "items rs = []"
    unfolding findKNearest_def by (auto simp: collects_def)
  then have "rs = \<lparr>capacity = 0, items = []\<rparr>" by (cases rs) simp
  with s have k0: "findKNearest idx q 0 = Some \<lparr>capacity = 0, items = []\<rparr>" by simp
  have "findInRadius idx q radius = Some []"
    using radiusLevel_negative [OF inv assms(3,4)] by (simp add: findInRadius_def)
  with b k0 show ?thesis by blast
qed

section \<open>The adaptor on the concrete collections\<close>

lemma all_less_2: "(\<forall>k<(2::nat). P k) \<longleftrightarrow> P 0 \<and> P (Suc 0)"
  by (auto simp: numeral_2_eq_2 less_Suc_eq)

lemma lessThan_2: "{..<(2::nat)} = {0, Suc 0}"
  by (auto simp: numeral_2_eq_2 less_Suc_eq)

theorem kdtree_get_limits_extrema_witness:
  "kdtree_get_limits nan_adaptor [2, 1] 2 0 = Some (Fin 1, Fin 2)"
proof -
  have "kdtree_get_limits nan_adaptor [2, 1] 2 0 =
     Some (Fin (Min ((\<lambda>k. number (pts (obj nan_adaptor) ! unat ([2, 1 :: 32 word] ! k) ! 0)) ` {..<2})),
           Fin (Max ((\<lambda>k. number (pts (obj nan_adaptor) ! unat ([2, 1 :: 32 word] ! k) ! 0)) ` {..<2})))"
    by (rule kdtree_get_limits_extrema)
       (simp_all add: all_less_2 nan_adaptor_def nan_cloud_def
          kdtree_get_point_count_def derived_def)
  then show ?thesis
    by (simp add: lessThan_2 nan_adaptor_def nan_cloud_def)
qed

theorem kdtree_get_limits_ordered_witness:
  "kdtree_get_limits nan_adaptor [1, 0, 2] 3 0 = Some (Fin 1, Fin 2) \<and>
   (Fin 1 :: rat ieee) \<le> Fin 2 \<and> pt_component nan_adaptor [1, 0, 2] 0 0 = Some (Fin 1)"
proof -
  have r: "kdtree_get_limits nan_adaptor [1, 0, 2] 3 0 = Some (Fin 1, Fin 2)"
    by (simp add: kdtree_get_limits_def kdtree_get_limits_loop.simps pt_component_def ix_at_def
        coordinate_def kdtree_get_pt_def get_component_def Point_get_component_def derived_def
        nan_adaptor_def nan_cloud_def)
  have p: "pt_component nan_adaptor [1, 0, 2] 0 0 = Some (Fin 1)"
    by (simp add: pt_component_def ix_at_def
        coordinate_def kdtree_get_pt_def get_component_def Point_get_component_def derived_def
        nan_adaptor_def nan_cloud_def)
  from r p kdtree_get_limits_ordered [OF r] show ?thesis by simp
qed


theorem unchecked_index_undefined_witness:
  "kdtree_get_pt scenario_adaptor 5 = None \<and>
   kdtree_get_limits scenario_adaptor [4, 7, 0] 3 0 = None"
  using unchecked_index_undefined [where idx = 5 and a = scenario_adaptor and k = 1 and cnt = 3
      and ix = "[4, 7, 0]" and dm = 0]
  by (simp add: kdtree_get_point_count_def derived_def scenario_adaptor_def scenario_cloud_def)

theorem adaptor_calls_frame_witness:
  "call_adaptor (Call_kdtree_get_limits [4, 1, 0] 3 0)
     \<lparr>this = scenario_adaptor, limit_min = 7, limit_max = 7\<rparr>
   = Some (Ret_void, \<lparr>this = scenario_adaptor, limit_min = 0, limit_max = 5\<rparr>)
   \<and> this \<lparr>this = scenario_adaptor, limit_min = 0, limit_max = 5\<rparr> = scenario_adaptor"
proof -
  have r: "kdtree_get_limits scenario_adaptor [4, 1, 0] 3 0 = Some (0, 5)"
    by (simp add: kdtree_get_limits_def kdtree_get_limits_loop.simps pt_component_def ix_at_def
        coordinate_def kdtree_get_pt_def get_component_def Point_get_component_def derived_def
        scenario_adaptor_def scenario_cloud_def)
  have c: "call_adaptor (Call_kdtree_get_limits [4, 1, 0] 3 0)
     \<lparr>this = scenario_adaptor, limit_min = 7, limit_max = 7\<rparr>
   = Some (Ret_void, \<lparr>this = scenario_adaptor, limit_min = 0, limit_max = 5\<rparr>)"
    by (simp add: r)
  from c adaptor_calls_frame [of "Call_kdtree_get_limits [4, 1, 0] 3 0"
      "\<lparr>this = scenario_adaptor, limit_min = 7, limit_max = 7\<rparr>" Ret_void
      "\<lparr>this = scenario_adaptor, limit_min = 0, limit_max = 5\<rparr>"]
  show ?thesis by simp
qed

text \<open>Claim C1 as the spec states it fails on a collection with a NaN coordinate. Read in the order 0, 1, 2 the coordinates are NaN, 1, 2 and both limits
  stay NaN: \<^verbatim>\<open>limit_min\<close> is not below the coordinate 1 and \<^verbatim>\<open>limit_max\<close> is not above
  the coordinate 2.\<close>

theorem kdtree_get_limits_nan_not_extrema:
  "kdtree_get_limits nan_adaptor [0, 1, 2] 3 0 = Some (NaN, NaN) \<and>
   coordinate nan_adaptor 1 0 = Some (Fin 1) \<and> \<not> NaN \<le> (Fin 1 :: rat ieee) \<and>
   coordinate nan_adaptor 2 0 = Some (Fin 2) \<and> \<not> (Fin 2 :: rat ieee) \<le> NaN"
  by (simp add: kdtree_get_limits_def kdtree_get_limits_loop.simps pt_component_def ix_at_def
      coordinate_def kdtree_get_pt_def get_component_def Point_get_component_def derived_def
      nan_adaptor_def nan_cloud_def)

text \<open>Claim C9 as the spec states it fails there too: with the NaN coordinate alone the pair
  is (NaN, NaN), and \<open>NaN \<le> NaN\<close> is false.\<close>

theorem kdtree_get_limits_nan_unordered:
  "kdtree_get_limits nan_adaptor [0] 1 0 = Some (NaN, NaN) \<and> \<not> (NaN :: rat ieee) \<le> NaN"
  by (simp add: kdtree_get_limits_def kdtree_get_limits_loop.simps pt_component_def ix_at_def
      coordinate_def kdtree_get_pt_def get_component_def Point_get_component_def derived_def
      nan_adaptor_def nan_cloud_def)


text \<open>Claim C8 as the spec states it fails where the pointer addresses entries: with \<open>count = 0\<close> the
  call reads \<^verbatim>\<open>ix[0] = 4\<close> and returns the coordinate 5 of that point as both limits.\<close>

theorem kdtree_get_limits_count0_defined:
  "kdtree_get_limits scenario_adaptor [4, 1, 0] 0 0 = Some (5, 5)"
  by (simp add: kdtree_get_limits_def kdtree_get_limits_loop.simps pt_component_def ix_at_def
      coordinate_def kdtree_get_pt_def get_component_def Point_get_component_def derived_def
      scenario_adaptor_def scenario_cloud_def)

section \<open>The index on the concrete collection\<close>

lemma scenario_count: "kdtree_get_point_count scenario_adaptor = 5"
  by (simp add: kdtree_get_point_count_def derived_def scenario_adaptor_def scenario_cloud_def)

lemma scenario_dims: "\<forall>p\<in>set (pts (obj scenario_adaptor)). length p = 3"
  by (simp add: scenario_adaptor_def scenario_cloud_def)



theorem degenerate_queries_empty_witness:
  "\<exists>idx. buildIndex 3 scenario_adaptor 2 = Some idx \<and>
     findKNearest idx [0, 0, 0] 0 = Some \<lparr>capacity = 0, items = []\<rparr> \<and>
     findInRadius idx [0, 0, 0] (- 1) = Some []"
  using degenerate_queries_empty [of scenario_adaptor 3 "[0, 0, 0]" "- 1" 2]
  by (simp add: scenario_count scenario_dims)

end
